theory Spec2Isabelle
  imports Main "HOL-Library.Word"
begin

section \<open>Spin locks of \<^verbatim>\<open>SpinMutex.h\<close>\<close>

text \<open>
  The header defines four lock classes over atomics.  Each method is embedded as a small
  labelled program: one label for every statement or condition that reads or writes a
  field of the lock, in the order of the source, and one step function per class that
  executes the statement at the current label and yields the next label.  An atomic operation (\<^verbatim>\<open>exchange\<close>, \<^verbatim>\<open>load\<close>, \<^verbatim>\<open>store\<close>,
  \<^verbatim>\<open>fetch_add\<close>, \<^verbatim>\<open>fetch_sub\<close>) is one step.  Steps of different threads interleave; the
  memory orders of the source are not modelled (every step acts on one shared state).

  \<^verbatim>\<open>size_t\<close> is a 64-bit word, \<^verbatim>\<open>int32_t\<close> and \<^verbatim>\<open>uint32_t\<close> are 32-bit words read with
  \<open>sint\<close> and \<open>uint\<close>.  \<^verbatim>\<open>fetch_add\<close> and \<^verbatim>\<open>fetch_sub\<close> on \<^verbatim>\<open>std::atomic<int32_t>\<close> wrap
  around; \<^verbatim>\<open>++\<close> and \<^verbatim>\<open>--\<close> on the plain \<^verbatim>\<open>int32_t _reenCount\<close> are undefined on overflow,
  which is the final label \<open>Undefined\<close>.  The asserts are those of a debug build: a failed
  assert is the final label \<open>AssertFailed\<close>.  \<^verbatim>\<open>std::this_thread::yield()\<close> has no effect on
  the lock and is the jump back to the head of the loop.
\<close>

type_synonym size_t = "64 word"
type_synonym int32_t = "32 word"
type_synonym uint32_t = "32 word"

text \<open>How a call ends: it returns (\<open>None\<close> for \<^verbatim>\<open>void\<close>, \<open>Some b\<close> for \<^verbatim>\<open>bool\<close>), an assert
  fails, or the behaviour is undefined.\<close>

datatype result = Returned "bool option" | AssertFailed | Undefined

text \<open>The methods of the four classes.\<close>

datatype lock_method = Lock | TryLock | Unlock | LockShared | TryLockShared | UnlockShared

subsection \<open>Running one call without interference\<close>

text \<open>\<open>run fin stp n p s\<close> takes at most \<open>n\<close> steps from label \<open>p\<close> in state \<open>s\<close> and returns
  the final label and state, or \<open>None\<close> when \<open>n\<close> steps do not reach a final label.\<close>

fun run :: "('p \<Rightarrow> bool) \<Rightarrow> ('p \<Rightarrow> 's \<Rightarrow> 'p \<times> 's) \<Rightarrow> nat \<Rightarrow> 'p \<Rightarrow> 's \<Rightarrow> ('p \<times> 's) option" where
  "run fin stp 0 p s = (if fin p then Some (p, s) else None)"
| "run fin stp (Suc n) p s =
     (if fin p then Some (p, s) else (case stp p s of (p', s') \<Rightarrow> run fin stp n p' s'))"

text \<open>The labels visited by the first \<open>n\<close> steps, the starting label included.\<close>

fun path :: "('p \<Rightarrow> bool) \<Rightarrow> ('p \<Rightarrow> 's \<Rightarrow> 'p \<times> 's) \<Rightarrow> nat \<Rightarrow> 'p \<Rightarrow> 's \<Rightarrow> 'p list" where
  "path fin stp 0 p s = [p]"
| "path fin stp (Suc n) p s =
     (if fin p then [p] else (case stp p s of (p', s') \<Rightarrow> p # path fin stp n p' s'))"

text \<open>
  A call whose steps alternate with what other threads do to the lock: before each step of
  the call the head of the list, any function of the lock, is applied to the lock.
\<close>

fun run_among ::
  "('p \<Rightarrow> bool) \<Rightarrow> ('p \<Rightarrow> 's \<Rightarrow> 'p \<times> 's) \<Rightarrow> ('s \<Rightarrow> 's) list \<Rightarrow> 'p \<Rightarrow> 's \<Rightarrow> ('p \<times> 's) option"
where
  "run_among fin stp [] p s = (if fin p then Some (p, s) else None)"
| "run_among fin stp (e # es) p s =
     (if fin p then Some (p, s)
      else (case stp p (e s) of (p', s') \<Rightarrow> run_among fin stp es p' s'))"

text \<open>The same call made \<open>k\<close> times in succession, each one returning before the next
  starts; \<open>None\<close> when one of them does not return.\<close>

fun repeat_call ::
  "('s \<Rightarrow> ('p \<times> 's) option) \<Rightarrow> ('p \<Rightarrow> result option) \<Rightarrow> nat \<Rightarrow> 's \<Rightarrow> 's option" where
  "repeat_call call res 0 s = Some s"
| "repeat_call call res (Suc k) s =
     (case call s of
        None \<Rightarrow> None
      | Some (p, s') \<Rightarrow>
          (case res p of Some (Returned r) \<Rightarrow> repeat_call call res k s' | _ \<Rightarrow> None))"

subsection \<open>\<^verbatim>\<open>get_thread_id\<close>\<close>

text \<open>
  \<^verbatim>\<open>get_thread_id()\<close> writes \<^verbatim>\<open>std::this_thread::get_id()\<close> to a string stream and returns
  \<^verbatim>\<open>atoi\<close> of the text.  The text is chosen by the platform's \<^verbatim>\<open>operator<<\<close> and is a
  parameter here.  \<^verbatim>\<open>atoi\<close> is the C library's: it skips white space, reads an optional
  sign and then decimal digits up to the first other character; with no digit the value
  is 0.  A value that does not fit \<^verbatim>\<open>int\<close> is undefined in C, which is \<open>None\<close>.  The \<^verbatim>\<open>int\<close> is
  converted to \<^verbatim>\<open>size_t\<close> on return.
\<close>

definition isspace :: "char \<Rightarrow> bool" where
  "isspace c = (c = CHR '' '' \<or> ((9 :: nat) \<le> of_char c \<and> of_char c \<le> (13 :: nat)))"

definition isdigit :: "char \<Rightarrow> bool" where
  "isdigit c = ((48 :: nat) \<le> of_char c \<and> of_char c \<le> (57 :: nat))"

fun digits_value :: "int \<Rightarrow> string \<Rightarrow> int" where
  "digits_value acc [] = acc"
| "digits_value acc (c # cs) =
     (if isdigit c then digits_value (acc * 10 + (of_char c - 48)) cs else acc)"

fun signed_value :: "string \<Rightarrow> int" where
  "signed_value [] = 0"
| "signed_value (c # cs) =
     (if c = CHR ''-'' then - digits_value 0 cs
      else if c = CHR ''+'' then digits_value 0 cs
      else digits_value 0 (c # cs))"

definition atoi :: "string \<Rightarrow> int option" where
  "atoi str =
     (let v = signed_value (dropWhile isspace str)
      in if - 2147483648 \<le> v \<and> v \<le> 2147483647 then Some v else None)"

definition get_thread_id :: "string \<Rightarrow> size_t option" where
  "get_thread_id str = map_option word_of_int (atoi str)"

subsection \<open>\<^verbatim>\<open>ReentrantSpinMutex\<close>\<close>

record ReentrantSpinMutex =
  rs_flag :: bool
  rs_owner :: size_t
  rs_reenCount :: int32_t

definition ReentrantSpinMutex_init :: ReentrantSpinMutex where
  "ReentrantSpinMutex_init = \<lparr>rs_flag = False, rs_owner = 0, rs_reenCount = 0\<rparr>"

datatype rs_label =
    RS_lock_owner      \<comment> \<open>\<^verbatim>\<open>if (_owner == g_threadId)\<close>\<close>
  | RS_lock_inc        \<comment> \<open>\<^verbatim>\<open>_reenCount++; return;\<close>\<close>
  | RS_lock_xchg       \<comment> \<open>\<^verbatim>\<open>while (_flag.exchange(true)) yield();\<close>\<close>
  | RS_lock_assert     \<comment> \<open>\<^verbatim>\<open>assert(_reenCount == 0 && _owner == 0);\<close>\<close>
  | RS_lock_set_owner  \<comment> \<open>\<^verbatim>\<open>_owner = g_threadId;\<close>\<close>
  | RS_lock_set_count  \<comment> \<open>\<^verbatim>\<open>_reenCount = 1;\<close>\<close>
  | RS_try_owner       \<comment> \<open>\<^verbatim>\<open>if (_owner == currId)\<close>\<close>
  | RS_try_inc         \<comment> \<open>\<^verbatim>\<open>_reenCount++; return true;\<close>\<close>
  | RS_try_load        \<comment> \<open>\<^verbatim>\<open>!_flag.load()\<close>\<close>
  | RS_try_xchg        \<comment> \<open>\<^verbatim>\<open>!_flag.exchange(true)\<close>\<close>
  | RS_try_assert      \<comment> \<open>\<^verbatim>\<open>assert(_reenCount == 0);\<close>\<close>
  | RS_try_set_owner   \<comment> \<open>\<^verbatim>\<open>_owner = currId;\<close>\<close>
  | RS_try_set_count   \<comment> \<open>\<^verbatim>\<open>_reenCount = 1; return true;\<close>\<close>
  | RS_unlock_assert   \<comment> \<open>\<^verbatim>\<open>assert(_owner == g_threadId);\<close>\<close>
  | RS_unlock_dec      \<comment> \<open>\<^verbatim>\<open>_reenCount--;\<close>\<close>
  | RS_unlock_test     \<comment> \<open>\<^verbatim>\<open>if (_reenCount == 0)\<close>\<close>
  | RS_unlock_clear    \<comment> \<open>\<^verbatim>\<open>_owner = 0;\<close>\<close>
  | RS_unlock_store    \<comment> \<open>\<^verbatim>\<open>_flag.store(false);\<close>\<close>
  | RS_end result

fun rs_final :: "rs_label \<Rightarrow> bool" where
  "rs_final (RS_end r) = True"
| "rs_final _ = False"

text \<open>The first argument is the caller's \<^verbatim>\<open>g_threadId\<close>.\<close>

fun ReentrantSpinMutex_step ::
  "size_t \<Rightarrow> rs_label \<Rightarrow> ReentrantSpinMutex \<Rightarrow> rs_label \<times> ReentrantSpinMutex" where
  "ReentrantSpinMutex_step g RS_lock_owner s =
     (if rs_owner s = g then (RS_lock_inc, s) else (RS_lock_xchg, s))"
| "ReentrantSpinMutex_step g RS_lock_inc s =
     (if sint (rs_reenCount s) = 2147483647 then (RS_end Undefined, s)
      else (RS_end (Returned None), s\<lparr>rs_reenCount := rs_reenCount s + 1\<rparr>))"
| "ReentrantSpinMutex_step g RS_lock_xchg s =
     (if rs_flag s then (RS_lock_xchg, s\<lparr>rs_flag := True\<rparr>)
      else (RS_lock_assert, s\<lparr>rs_flag := True\<rparr>))"
| "ReentrantSpinMutex_step g RS_lock_assert s =
     (if rs_reenCount s = 0 \<and> rs_owner s = 0 then (RS_lock_set_owner, s)
      else (RS_end AssertFailed, s))"
| "ReentrantSpinMutex_step g RS_lock_set_owner s = (RS_lock_set_count, s\<lparr>rs_owner := g\<rparr>)"
| "ReentrantSpinMutex_step g RS_lock_set_count s =
     (RS_end (Returned None), s\<lparr>rs_reenCount := 1\<rparr>)"
| "ReentrantSpinMutex_step g RS_try_owner s =
     (if rs_owner s = g then (RS_try_inc, s) else (RS_try_load, s))"
| "ReentrantSpinMutex_step g RS_try_inc s =
     (if sint (rs_reenCount s) = 2147483647 then (RS_end Undefined, s)
      else (RS_end (Returned (Some True)), s\<lparr>rs_reenCount := rs_reenCount s + 1\<rparr>))"
| "ReentrantSpinMutex_step g RS_try_load s =
     (if rs_flag s then (RS_end (Returned (Some False)), s) else (RS_try_xchg, s))"
| "ReentrantSpinMutex_step g RS_try_xchg s =
     (if rs_flag s then (RS_end (Returned (Some False)), s\<lparr>rs_flag := True\<rparr>)
      else (RS_try_assert, s\<lparr>rs_flag := True\<rparr>))"
| "ReentrantSpinMutex_step g RS_try_assert s =
     (if rs_reenCount s = 0 then (RS_try_set_owner, s) else (RS_end AssertFailed, s))"
| "ReentrantSpinMutex_step g RS_try_set_owner s = (RS_try_set_count, s\<lparr>rs_owner := g\<rparr>)"
| "ReentrantSpinMutex_step g RS_try_set_count s =
     (RS_end (Returned (Some True)), s\<lparr>rs_reenCount := 1\<rparr>)"
| "ReentrantSpinMutex_step g RS_unlock_assert s =
     (if rs_owner s = g then (RS_unlock_dec, s) else (RS_end AssertFailed, s))"
| "ReentrantSpinMutex_step g RS_unlock_dec s =
     (if sint (rs_reenCount s) = - 2147483648 then (RS_end Undefined, s)
      else (RS_unlock_test, s\<lparr>rs_reenCount := rs_reenCount s - 1\<rparr>))"
| "ReentrantSpinMutex_step g RS_unlock_test s =
     (if rs_reenCount s = 0 then (RS_unlock_clear, s) else (RS_end (Returned None), s))"
| "ReentrantSpinMutex_step g RS_unlock_clear s = (RS_unlock_store, s\<lparr>rs_owner := 0\<rparr>)"
| "ReentrantSpinMutex_step g RS_unlock_store s =
     (RS_end (Returned None), s\<lparr>rs_flag := False\<rparr>)"
| "ReentrantSpinMutex_step g (RS_end r) s = (RS_end r, s)"

text \<open>The label at which each method starts; the class has no shared side.\<close>

fun rs_entry :: "lock_method \<Rightarrow> rs_label option" where
  "rs_entry Lock = Some RS_lock_owner"
| "rs_entry TryLock = Some RS_try_owner"
| "rs_entry Unlock = Some RS_unlock_assert"
| "rs_entry _ = None"

text \<open>\<^verbatim>\<open>reentrant_count()\<close> and \<^verbatim>\<open>is_locked()\<close>.\<close>

definition rs_reentrant_count :: "ReentrantSpinMutex \<Rightarrow> int32_t" where
  "rs_reentrant_count s = rs_reenCount s"

definition rs_is_locked :: "ReentrantSpinMutex \<Rightarrow> bool" where
  "rs_is_locked s = rs_flag s"

text \<open>A call run alone, with \<open>n\<close> steps of fuel.\<close>

definition rs_call ::
  "nat \<Rightarrow> size_t \<Rightarrow> rs_label \<Rightarrow> ReentrantSpinMutex \<Rightarrow> (rs_label \<times> ReentrantSpinMutex) option" where
  "rs_call n g p s = run rs_final (ReentrantSpinMutex_step g) n p s"

definition rs_path :: "nat \<Rightarrow> size_t \<Rightarrow> rs_label \<Rightarrow> ReentrantSpinMutex \<Rightarrow> rs_label list" where
  "rs_path n g p s = path rs_final (ReentrantSpinMutex_step g) n p s"

subsection \<open>\<^verbatim>\<open>SpinMutex\<close>\<close>

record SpinMutex =
  sm_flag :: bool
  sm_owner :: size_t

definition SpinMutex_init :: SpinMutex where
  "SpinMutex_init = \<lparr>sm_flag = False, sm_owner = 0\<rparr>"

datatype sm_label =
    SM_lock_xchg       \<comment> \<open>\<^verbatim>\<open>while (_flag.exchange(true)) yield();\<close>\<close>
  | SM_lock_set_owner  \<comment> \<open>\<^verbatim>\<open>_owner = g_threadId;\<close>\<close>
  | SM_try_load        \<comment> \<open>\<^verbatim>\<open>!_flag.load()\<close>\<close>
  | SM_try_xchg        \<comment> \<open>\<^verbatim>\<open>!_flag.exchange(true)\<close>\<close>
  | SM_try_set_owner   \<comment> \<open>\<^verbatim>\<open>if (b) _owner = g_threadId; return b;\<close>\<close>
  | SM_unlock_assert   \<comment> \<open>\<^verbatim>\<open>assert(_owner == g_threadId);\<close>\<close>
  | SM_unlock_clear    \<comment> \<open>\<^verbatim>\<open>_owner = 0;\<close>\<close>
  | SM_unlock_store    \<comment> \<open>\<^verbatim>\<open>_flag.store(false);\<close>\<close>
  | SM_end result

fun sm_final :: "sm_label \<Rightarrow> bool" where
  "sm_final (SM_end r) = True"
| "sm_final _ = False"

fun SpinMutex_step :: "size_t \<Rightarrow> sm_label \<Rightarrow> SpinMutex \<Rightarrow> sm_label \<times> SpinMutex" where
  "SpinMutex_step g SM_lock_xchg s =
     (if sm_flag s then (SM_lock_xchg, s\<lparr>sm_flag := True\<rparr>)
      else (SM_lock_set_owner, s\<lparr>sm_flag := True\<rparr>))"
| "SpinMutex_step g SM_lock_set_owner s = (SM_end (Returned None), s\<lparr>sm_owner := g\<rparr>)"
| "SpinMutex_step g SM_try_load s =
     (if sm_flag s then (SM_end (Returned (Some False)), s) else (SM_try_xchg, s))"
| "SpinMutex_step g SM_try_xchg s =
     (if sm_flag s then (SM_end (Returned (Some False)), s\<lparr>sm_flag := True\<rparr>)
      else (SM_try_set_owner, s\<lparr>sm_flag := True\<rparr>))"
| "SpinMutex_step g SM_try_set_owner s = (SM_end (Returned (Some True)), s\<lparr>sm_owner := g\<rparr>)"
| "SpinMutex_step g SM_unlock_assert s =
     (if sm_owner s = g then (SM_unlock_clear, s) else (SM_end AssertFailed, s))"
| "SpinMutex_step g SM_unlock_clear s = (SM_unlock_store, s\<lparr>sm_owner := 0\<rparr>)"
| "SpinMutex_step g SM_unlock_store s = (SM_end (Returned None), s\<lparr>sm_flag := False\<rparr>)"
| "SpinMutex_step g (SM_end r) s = (SM_end r, s)"

fun sm_entry :: "lock_method \<Rightarrow> sm_label option" where
  "sm_entry Lock = Some SM_lock_xchg"
| "sm_entry TryLock = Some SM_try_load"
| "sm_entry Unlock = Some SM_unlock_assert"
| "sm_entry _ = None"

definition sm_call ::
  "nat \<Rightarrow> size_t \<Rightarrow> sm_label \<Rightarrow> SpinMutex \<Rightarrow> (sm_label \<times> SpinMutex) option" where
  "sm_call n g p s = run sm_final (SpinMutex_step g) n p s"

subsection \<open>\<^verbatim>\<open>SharedSpinMutex\<close>\<close>

record SharedSpinMutex =
  ss_readCount :: int32_t
  ss_writeFlag :: bool
  ss_owner :: size_t

definition SharedSpinMutex_init :: SharedSpinMutex where
  "SharedSpinMutex_init = \<lparr>ss_readCount = 0, ss_writeFlag = False, ss_owner = 0\<rparr>"

datatype ss_label =
    SS_lock_xchg       \<comment> \<open>\<^verbatim>\<open>while (_writeFlag.exchange(true)) yield();\<close>\<close>
  | SS_lock_drain      \<comment> \<open>\<^verbatim>\<open>while (_readCount.load() > 0) yield();\<close>\<close>
  | SS_lock_set_owner  \<comment> \<open>\<^verbatim>\<open>_owner = g_threadId;\<close>\<close>
  | SS_try_count       \<comment> \<open>\<^verbatim>\<open>_readCount.load() == 0\<close>\<close>
  | SS_try_xchg        \<comment> \<open>\<^verbatim>\<open>!_writeFlag.exchange(true)\<close>\<close>
  | SS_try_recheck     \<comment> \<open>\<^verbatim>\<open>if (_readCount.load() > 0)\<close>\<close>
  | SS_try_release     \<comment> \<open>\<^verbatim>\<open>_writeFlag.store(false); return false;\<close>\<close>
  | SS_try_set_owner   \<comment> \<open>\<^verbatim>\<open>_owner = g_threadId; return true;\<close>\<close>
  | SS_unlock_assert   \<comment> \<open>\<^verbatim>\<open>assert(_owner == g_threadId);\<close>\<close>
  | SS_unlock_clear    \<comment> \<open>\<^verbatim>\<open>_owner = 0;\<close>\<close>
  | SS_unlock_store    \<comment> \<open>\<^verbatim>\<open>_writeFlag.store(false);\<close>\<close>
  | SS_ls_add          \<comment> \<open>\<^verbatim>\<open>_readCount.fetch_add(1);\<close>\<close>
  | SS_ls_load         \<comment> \<open>\<^verbatim>\<open>if (!_writeFlag.load()) break;\<close>\<close>
  | SS_ls_sub          \<comment> \<open>\<^verbatim>\<open>_readCount.fetch_sub(1); yield();\<close>\<close>
  | SS_tls_load        \<comment> \<open>\<^verbatim>\<open>if (!_writeFlag.load())\<close>\<close>
  | SS_tls_add         \<comment> \<open>\<^verbatim>\<open>_readCount.fetch_add(1);\<close>\<close>
  | SS_tls_recheck     \<comment> \<open>\<^verbatim>\<open>if (_writeFlag.load())\<close>\<close>
  | SS_tls_sub         \<comment> \<open>\<^verbatim>\<open>_readCount.fetch_sub(1); return false;\<close>\<close>
  | SS_us_assert       \<comment> \<open>\<^verbatim>\<open>assert(_owner == 0);\<close>\<close>
  | SS_us_sub          \<comment> \<open>\<^verbatim>\<open>_readCount.fetch_sub(1);\<close>\<close>
  | SS_end result

fun ss_final :: "ss_label \<Rightarrow> bool" where
  "ss_final (SS_end r) = True"
| "ss_final _ = False"

fun SharedSpinMutex_step ::
  "size_t \<Rightarrow> ss_label \<Rightarrow> SharedSpinMutex \<Rightarrow> ss_label \<times> SharedSpinMutex" where
  "SharedSpinMutex_step g SS_lock_xchg s =
     (if ss_writeFlag s then (SS_lock_xchg, s\<lparr>ss_writeFlag := True\<rparr>)
      else (SS_lock_drain, s\<lparr>ss_writeFlag := True\<rparr>))"
| "SharedSpinMutex_step g SS_lock_drain s =
     (if 0 < sint (ss_readCount s) then (SS_lock_drain, s) else (SS_lock_set_owner, s))"
| "SharedSpinMutex_step g SS_lock_set_owner s = (SS_end (Returned None), s\<lparr>ss_owner := g\<rparr>)"
| "SharedSpinMutex_step g SS_try_count s =
     (if ss_readCount s = 0 then (SS_try_xchg, s) else (SS_end (Returned (Some False)), s))"
| "SharedSpinMutex_step g SS_try_xchg s =
     (if ss_writeFlag s then (SS_end (Returned (Some False)), s\<lparr>ss_writeFlag := True\<rparr>)
      else (SS_try_recheck, s\<lparr>ss_writeFlag := True\<rparr>))"
| "SharedSpinMutex_step g SS_try_recheck s =
     (if 0 < sint (ss_readCount s) then (SS_try_release, s) else (SS_try_set_owner, s))"
| "SharedSpinMutex_step g SS_try_release s =
     (SS_end (Returned (Some False)), s\<lparr>ss_writeFlag := False\<rparr>)"
| "SharedSpinMutex_step g SS_try_set_owner s =
     (SS_end (Returned (Some True)), s\<lparr>ss_owner := g\<rparr>)"
| "SharedSpinMutex_step g SS_unlock_assert s =
     (if ss_owner s = g then (SS_unlock_clear, s) else (SS_end AssertFailed, s))"
| "SharedSpinMutex_step g SS_unlock_clear s = (SS_unlock_store, s\<lparr>ss_owner := 0\<rparr>)"
| "SharedSpinMutex_step g SS_unlock_store s =
     (SS_end (Returned None), s\<lparr>ss_writeFlag := False\<rparr>)"
| "SharedSpinMutex_step g SS_ls_add s = (SS_ls_load, s\<lparr>ss_readCount := ss_readCount s + 1\<rparr>)"
| "SharedSpinMutex_step g SS_ls_load s =
     (if ss_writeFlag s then (SS_ls_sub, s) else (SS_end (Returned None), s))"
| "SharedSpinMutex_step g SS_ls_sub s = (SS_ls_add, s\<lparr>ss_readCount := ss_readCount s - 1\<rparr>)"
| "SharedSpinMutex_step g SS_tls_load s =
     (if ss_writeFlag s then (SS_end (Returned (Some False)), s) else (SS_tls_add, s))"
| "SharedSpinMutex_step g SS_tls_add s =
     (SS_tls_recheck, s\<lparr>ss_readCount := ss_readCount s + 1\<rparr>)"
| "SharedSpinMutex_step g SS_tls_recheck s =
     (if ss_writeFlag s then (SS_tls_sub, s) else (SS_end (Returned (Some True)), s))"
| "SharedSpinMutex_step g SS_tls_sub s =
     (SS_end (Returned (Some False)), s\<lparr>ss_readCount := ss_readCount s - 1\<rparr>)"
| "SharedSpinMutex_step g SS_us_assert s =
     (if ss_owner s = 0 then (SS_us_sub, s) else (SS_end AssertFailed, s))"
| "SharedSpinMutex_step g SS_us_sub s =
     (SS_end (Returned None), s\<lparr>ss_readCount := ss_readCount s - 1\<rparr>)"
| "SharedSpinMutex_step g (SS_end r) s = (SS_end r, s)"

fun ss_entry :: "lock_method \<Rightarrow> ss_label option" where
  "ss_entry Lock = Some SS_lock_xchg"
| "ss_entry TryLock = Some SS_try_count"
| "ss_entry Unlock = Some SS_unlock_assert"
| "ss_entry LockShared = Some SS_ls_add"
| "ss_entry TryLockShared = Some SS_tls_load"
| "ss_entry UnlockShared = Some SS_us_assert"

text \<open>\<^verbatim>\<open>read_locked_count()\<close>: the \<^verbatim>\<open>int32_t\<close> loaded is returned as \<^verbatim>\<open>uint32_t\<close>, the same 32
  bits.\<close>

definition ss_read_locked_count :: "SharedSpinMutex \<Rightarrow> uint32_t" where
  "ss_read_locked_count s = ss_readCount s"

definition ss_call ::
  "nat \<Rightarrow> size_t \<Rightarrow> ss_label \<Rightarrow> SharedSpinMutex \<Rightarrow> (ss_label \<times> SharedSpinMutex) option" where
  "ss_call n g p s = run ss_final (SharedSpinMutex_step g) n p s"

subsection \<open>\<^verbatim>\<open>ReentrantSharedSpinMutex\<close>\<close>

record ReentrantSharedSpinMutex =
  rss_readCount :: int32_t
  rss_writeFlag :: bool
  rss_owner :: size_t
  rss_reenCount :: int32_t

definition ReentrantSharedSpinMutex_init :: ReentrantSharedSpinMutex where
  "ReentrantSharedSpinMutex_init =
     \<lparr>rss_readCount = 0, rss_writeFlag = False, rss_owner = 0, rss_reenCount = 0\<rparr>"

datatype rss_label =
    RSS_lock_owner       \<comment> \<open>\<^verbatim>\<open>if (_owner == currId)\<close>\<close>
  | RSS_lock_assert_pos  \<comment> \<open>\<^verbatim>\<open>assert(_reenCount > 0);\<close>\<close>
  | RSS_lock_inc         \<comment> \<open>\<^verbatim>\<open>_reenCount++; return;\<close>\<close>
  | RSS_lock_xchg        \<comment> \<open>\<^verbatim>\<open>while (_writeFlag.exchange(true)) yield();\<close>\<close>
  | RSS_lock_drain       \<comment> \<open>\<^verbatim>\<open>while (_readCount.load() > 0) yield();\<close>\<close>
  | RSS_lock_assert_zero \<comment> \<open>\<^verbatim>\<open>assert(_reenCount == 0);\<close>\<close>
  | RSS_lock_set_owner   \<comment> \<open>\<^verbatim>\<open>_owner = currId;\<close>\<close>
  | RSS_lock_set_count   \<comment> \<open>\<^verbatim>\<open>_reenCount = 1;\<close>\<close>
  | RSS_try_owner        \<comment> \<open>\<^verbatim>\<open>if (_owner == currId)\<close>\<close>
  | RSS_try_assert_pos   \<comment> \<open>\<^verbatim>\<open>assert(_reenCount > 0);\<close>\<close>
  | RSS_try_inc          \<comment> \<open>\<^verbatim>\<open>_reenCount++; return true;\<close>\<close>
  | RSS_try_count        \<comment> \<open>\<^verbatim>\<open>_readCount.load() == 0\<close>\<close>
  | RSS_try_xchg         \<comment> \<open>\<^verbatim>\<open>!_writeFlag.exchange(true)\<close>\<close>
  | RSS_try_recheck      \<comment> \<open>\<^verbatim>\<open>if (_readCount.load() > 0)\<close>\<close>
  | RSS_try_release      \<comment> \<open>\<^verbatim>\<open>_writeFlag.store(false); return false;\<close>\<close>
  | RSS_try_assert_zero  \<comment> \<open>\<^verbatim>\<open>assert(_reenCount == 0);\<close>\<close>
  | RSS_try_set_owner    \<comment> \<open>\<^verbatim>\<open>_owner = currId;\<close>\<close>
  | RSS_try_set_count    \<comment> \<open>\<^verbatim>\<open>_reenCount = 1; return true;\<close>\<close>
  | RSS_unlock_assert    \<comment> \<open>\<^verbatim>\<open>assert(_owner == g_threadId);\<close>\<close>
  | RSS_unlock_dec       \<comment> \<open>\<^verbatim>\<open>_reenCount--;\<close>\<close>
  | RSS_unlock_test      \<comment> \<open>\<^verbatim>\<open>if (_reenCount == 0)\<close>\<close>
  | RSS_unlock_clear     \<comment> \<open>\<^verbatim>\<open>_owner = 0;\<close>\<close>
  | RSS_unlock_store     \<comment> \<open>\<^verbatim>\<open>_writeFlag.store(false);\<close>\<close>
  | RSS_ls_add           \<comment> \<open>\<^verbatim>\<open>_readCount.fetch_add(1);\<close>\<close>
  | RSS_ls_load          \<comment> \<open>\<^verbatim>\<open>if (!_writeFlag.load()) break;\<close>\<close>
  | RSS_ls_sub           \<comment> \<open>\<^verbatim>\<open>_readCount.fetch_sub(1); yield();\<close>\<close>
  | RSS_tls_load         \<comment> \<open>\<^verbatim>\<open>if (!_writeFlag.load())\<close>\<close>
  | RSS_tls_add          \<comment> \<open>\<^verbatim>\<open>_readCount.fetch_add(1);\<close>\<close>
  | RSS_tls_recheck      \<comment> \<open>\<^verbatim>\<open>if (_writeFlag.load())\<close>\<close>
  | RSS_tls_sub          \<comment> \<open>\<^verbatim>\<open>_readCount.fetch_sub(1); return false;\<close>\<close>
  | RSS_us_sub           \<comment> \<open>\<^verbatim>\<open>_readCount.fetch_sub(1);\<close>\<close>
  | RSS_end result

fun rss_final :: "rss_label \<Rightarrow> bool" where
  "rss_final (RSS_end r) = True"
| "rss_final _ = False"

fun ReentrantSharedSpinMutex_step ::
  "size_t \<Rightarrow> rss_label \<Rightarrow> ReentrantSharedSpinMutex \<Rightarrow> rss_label \<times> ReentrantSharedSpinMutex"
where
  "ReentrantSharedSpinMutex_step g RSS_lock_owner s =
     (if rss_owner s = g then (RSS_lock_assert_pos, s) else (RSS_lock_xchg, s))"
| "ReentrantSharedSpinMutex_step g RSS_lock_assert_pos s =
     (if 0 < sint (rss_reenCount s) then (RSS_lock_inc, s) else (RSS_end AssertFailed, s))"
| "ReentrantSharedSpinMutex_step g RSS_lock_inc s =
     (if sint (rss_reenCount s) = 2147483647 then (RSS_end Undefined, s)
      else (RSS_end (Returned None), s\<lparr>rss_reenCount := rss_reenCount s + 1\<rparr>))"
| "ReentrantSharedSpinMutex_step g RSS_lock_xchg s =
     (if rss_writeFlag s then (RSS_lock_xchg, s\<lparr>rss_writeFlag := True\<rparr>)
      else (RSS_lock_drain, s\<lparr>rss_writeFlag := True\<rparr>))"
| "ReentrantSharedSpinMutex_step g RSS_lock_drain s =
     (if 0 < sint (rss_readCount s) then (RSS_lock_drain, s) else (RSS_lock_assert_zero, s))"
| "ReentrantSharedSpinMutex_step g RSS_lock_assert_zero s =
     (if rss_reenCount s = 0 then (RSS_lock_set_owner, s) else (RSS_end AssertFailed, s))"
| "ReentrantSharedSpinMutex_step g RSS_lock_set_owner s =
     (RSS_lock_set_count, s\<lparr>rss_owner := g\<rparr>)"
| "ReentrantSharedSpinMutex_step g RSS_lock_set_count s =
     (RSS_end (Returned None), s\<lparr>rss_reenCount := 1\<rparr>)"
| "ReentrantSharedSpinMutex_step g RSS_try_owner s =
     (if rss_owner s = g then (RSS_try_assert_pos, s) else (RSS_try_count, s))"
| "ReentrantSharedSpinMutex_step g RSS_try_assert_pos s =
     (if 0 < sint (rss_reenCount s) then (RSS_try_inc, s) else (RSS_end AssertFailed, s))"
| "ReentrantSharedSpinMutex_step g RSS_try_inc s =
     (if sint (rss_reenCount s) = 2147483647 then (RSS_end Undefined, s)
      else (RSS_end (Returned (Some True)), s\<lparr>rss_reenCount := rss_reenCount s + 1\<rparr>))"
| "ReentrantSharedSpinMutex_step g RSS_try_count s =
     (if rss_readCount s = 0 then (RSS_try_xchg, s) else (RSS_end (Returned (Some False)), s))"
| "ReentrantSharedSpinMutex_step g RSS_try_xchg s =
     (if rss_writeFlag s then (RSS_end (Returned (Some False)), s\<lparr>rss_writeFlag := True\<rparr>)
      else (RSS_try_recheck, s\<lparr>rss_writeFlag := True\<rparr>))"
| "ReentrantSharedSpinMutex_step g RSS_try_recheck s =
     (if 0 < sint (rss_readCount s) then (RSS_try_release, s) else (RSS_try_assert_zero, s))"
| "ReentrantSharedSpinMutex_step g RSS_try_release s =
     (RSS_end (Returned (Some False)), s\<lparr>rss_writeFlag := False\<rparr>)"
| "ReentrantSharedSpinMutex_step g RSS_try_assert_zero s =
     (if rss_reenCount s = 0 then (RSS_try_set_owner, s) else (RSS_end AssertFailed, s))"
| "ReentrantSharedSpinMutex_step g RSS_try_set_owner s =
     (RSS_try_set_count, s\<lparr>rss_owner := g\<rparr>)"
| "ReentrantSharedSpinMutex_step g RSS_try_set_count s =
     (RSS_end (Returned (Some True)), s\<lparr>rss_reenCount := 1\<rparr>)"
| "ReentrantSharedSpinMutex_step g RSS_unlock_assert s =
     (if rss_owner s = g then (RSS_unlock_dec, s) else (RSS_end AssertFailed, s))"
| "ReentrantSharedSpinMutex_step g RSS_unlock_dec s =
     (if sint (rss_reenCount s) = - 2147483648 then (RSS_end Undefined, s)
      else (RSS_unlock_test, s\<lparr>rss_reenCount := rss_reenCount s - 1\<rparr>))"
| "ReentrantSharedSpinMutex_step g RSS_unlock_test s =
     (if rss_reenCount s = 0 then (RSS_unlock_clear, s) else (RSS_end (Returned None), s))"
| "ReentrantSharedSpinMutex_step g RSS_unlock_clear s = (RSS_unlock_store, s\<lparr>rss_owner := 0\<rparr>)"
| "ReentrantSharedSpinMutex_step g RSS_unlock_store s =
     (RSS_end (Returned None), s\<lparr>rss_writeFlag := False\<rparr>)"
| "ReentrantSharedSpinMutex_step g RSS_ls_add s =
     (RSS_ls_load, s\<lparr>rss_readCount := rss_readCount s + 1\<rparr>)"
| "ReentrantSharedSpinMutex_step g RSS_ls_load s =
     (if rss_writeFlag s then (RSS_ls_sub, s) else (RSS_end (Returned None), s))"
| "ReentrantSharedSpinMutex_step g RSS_ls_sub s =
     (RSS_ls_add, s\<lparr>rss_readCount := rss_readCount s - 1\<rparr>)"
| "ReentrantSharedSpinMutex_step g RSS_tls_load s =
     (if rss_writeFlag s then (RSS_end (Returned (Some False)), s) else (RSS_tls_add, s))"
| "ReentrantSharedSpinMutex_step g RSS_tls_add s =
     (RSS_tls_recheck, s\<lparr>rss_readCount := rss_readCount s + 1\<rparr>)"
| "ReentrantSharedSpinMutex_step g RSS_tls_recheck s =
     (if rss_writeFlag s then (RSS_tls_sub, s) else (RSS_end (Returned (Some True)), s))"
| "ReentrantSharedSpinMutex_step g RSS_tls_sub s =
     (RSS_end (Returned (Some False)), s\<lparr>rss_readCount := rss_readCount s - 1\<rparr>)"
| "ReentrantSharedSpinMutex_step g RSS_us_sub s =
     (RSS_end (Returned None), s\<lparr>rss_readCount := rss_readCount s - 1\<rparr>)"
| "ReentrantSharedSpinMutex_step g (RSS_end r) s = (RSS_end r, s)"

fun rss_entry :: "lock_method \<Rightarrow> rss_label option" where
  "rss_entry Lock = Some RSS_lock_owner"
| "rss_entry TryLock = Some RSS_try_owner"
| "rss_entry Unlock = Some RSS_unlock_assert"
| "rss_entry LockShared = Some RSS_ls_add"
| "rss_entry TryLockShared = Some RSS_tls_load"
| "rss_entry UnlockShared = Some RSS_us_sub"

definition rss_read_locked_count :: "ReentrantSharedSpinMutex \<Rightarrow> uint32_t" where
  "rss_read_locked_count s = rss_readCount s"

definition rss_reentrant_count :: "ReentrantSharedSpinMutex \<Rightarrow> int32_t" where
  "rss_reentrant_count s = rss_reenCount s"

definition rss_call ::
  "nat \<Rightarrow> size_t \<Rightarrow> rss_label \<Rightarrow> ReentrantSharedSpinMutex
     \<Rightarrow> (rss_label \<times> ReentrantSharedSpinMutex) option" where
  "rss_call n g p s = run rss_final (ReentrantSharedSpinMutex_step g) n p s"

subsection \<open>\<^verbatim>\<open>SharedSpinMutex::try_lock\<close> among other threads\<close>

text \<open>\<^verbatim>\<open>try_lock()\<close> while other threads act on the lock in any way between its steps.\<close>

definition ss_try_lock_among ::
  "(SharedSpinMutex \<Rightarrow> SharedSpinMutex) list \<Rightarrow> size_t \<Rightarrow> SharedSpinMutex
     \<Rightarrow> (ss_label \<times> SharedSpinMutex) option" where
  "ss_try_lock_among es g s = run_among ss_final (SharedSpinMutex_step g) es SS_try_count s"

subsection \<open>The shared side of the two reader/writer classes, side by side\<close>

text \<open>The fields \<^verbatim>\<open>ReentrantSharedSpinMutex\<close> has in common with \<^verbatim>\<open>SharedSpinMutex\<close>, and
  the labels of the shared methods of \<^verbatim>\<open>SharedSpinMutex\<close> in \<^verbatim>\<open>ReentrantSharedSpinMutex\<close>.
  \<^verbatim>\<open>SharedSpinMutex::unlock_shared\<close> starts with an assert that
  \<^verbatim>\<open>ReentrantSharedSpinMutex::unlock_shared\<close> does not have.\<close>

definition shared_fields :: "ReentrantSharedSpinMutex \<Rightarrow> SharedSpinMutex" where
  "shared_fields s =
     \<lparr>ss_readCount = rss_readCount s, ss_writeFlag = rss_writeFlag s, ss_owner = rss_owner s\<rparr>"

fun shared_label :: "rss_label \<Rightarrow> ss_label option" where
  "shared_label RSS_ls_add = Some SS_ls_add"
| "shared_label RSS_ls_load = Some SS_ls_load"
| "shared_label RSS_ls_sub = Some SS_ls_sub"
| "shared_label RSS_tls_load = Some SS_tls_load"
| "shared_label RSS_tls_add = Some SS_tls_add"
| "shared_label RSS_tls_recheck = Some SS_tls_recheck"
| "shared_label RSS_tls_sub = Some SS_tls_sub"
| "shared_label RSS_us_sub = Some SS_us_sub"
| "shared_label (RSS_end r) = Some (SS_end r)"
| "shared_label _ = None"

subsection \<open>States of the reentrant classes\<close>

text \<open>The lock held by the thread with \<^verbatim>\<open>g_threadId = g\<close> at nesting depth \<open>k\<close>, no reader
  present.\<close>

definition rs_held :: "size_t \<Rightarrow> nat \<Rightarrow> ReentrantSpinMutex" where
  "rs_held g k = \<lparr>rs_flag = True, rs_owner = g, rs_reenCount = of_nat k\<rparr>"

definition rss_held :: "size_t \<Rightarrow> nat \<Rightarrow> ReentrantSharedSpinMutex" where
  "rss_held g k =
     \<lparr>rss_readCount = 0, rss_writeFlag = True, rss_owner = g, rss_reenCount = of_nat k\<rparr>"

text \<open>The relation between reentry count and owner that the data model asks for: the
  count is zero exactly when the owner is the sentinel 0, and positive exactly when an
  owner is set.\<close>

definition rs_count_owner :: "ReentrantSpinMutex \<Rightarrow> bool" where
  "rs_count_owner s =
     ((rs_reenCount s = 0) = (rs_owner s = 0) \<and> (0 < sint (rs_reenCount s)) = (rs_owner s \<noteq> 0))"

definition rss_count_owner :: "ReentrantSharedSpinMutex \<Rightarrow> bool" where
  "rss_count_owner s =
     ((rss_reenCount s = 0) = (rss_owner s = 0) \<and>
      (0 < sint (rss_reenCount s)) = (rss_owner s \<noteq> 0))"

text \<open>The text starts with a decimal digit or a sign.\<close>

fun starts_with_digit_or_sign :: "string \<Rightarrow> bool" where
  "starts_with_digit_or_sign [] = False"
| "starts_with_digit_or_sign (c # cs) = (isdigit c \<or> c = CHR ''+'' \<or> c = CHR ''-'')"

text \<open>The decimal digits at the head of the text are all zeros (or there is none), and
  the same after leading white space and an optional sign: the texts \<^verbatim>\<open>atoi\<close> reads as 0.\<close>

fun zero_digits :: "string \<Rightarrow> bool" where
  "zero_digits [] = True"
| "zero_digits (c # cs) = (if isdigit c then c = CHR ''0'' \<and> zero_digits cs else True)"

fun zero_signed :: "string \<Rightarrow> bool" where
  "zero_signed [] = True"
| "zero_signed (c # cs) =
     (if c = CHR ''-'' \<or> c = CHR ''+'' then zero_digits cs else zero_digits (c # cs))"

definition reads_as_zero :: "string \<Rightarrow> bool" where
  "reads_as_zero str = zero_signed (dropWhile isspace str)"

definition rss_path ::
  "nat \<Rightarrow> size_t \<Rightarrow> rss_label \<Rightarrow> ReentrantSharedSpinMutex \<Rightarrow> rss_label list" where
  "rss_path n g p s = path rss_final (ReentrantSharedSpinMutex_step g) n p s"

subsection \<open>Threads calling into one lock\<close>

text \<open>
  A class is given by the entry label of each method, its step function, the result at a
  final label and the state after construction.  A thread is between calls (\<open>th_pc = None\<close>)
  or inside a call at a label.  Two counters per thread record what the caller holds: the
  exclusive acquisitions (\<^verbatim>\<open>lock()\<close> returned or \<^verbatim>\<open>try_lock()\<close> returned true) not yet
  matched by a returned \<^verbatim>\<open>unlock()\<close>, and the same for the shared side.  They are
  bookkeeping about the callers, not fields of the lock.
\<close>

record ('p, 's) lock_class =
  entry_of :: "lock_method \<Rightarrow> 'p option"
  step_of :: "size_t \<Rightarrow> 'p \<Rightarrow> 's \<Rightarrow> 'p \<times> 's"
  result_at :: "'p \<Rightarrow> result option"
  init_state :: 's

record 'p thread =
  th_pc :: "'p option"
  th_method :: lock_method
  th_excl :: nat
  th_shared :: nat

record ('p, 's) system =
  threads :: "nat \<Rightarrow> 'p thread"
  lock_state :: 's
  aborted :: bool

definition idle_thread :: "'p thread" where
  "idle_thread = \<lparr>th_pc = None, th_method = Lock, th_excl = 0, th_shared = 0\<rparr>"

definition init_system :: "('p, 's) lock_class \<Rightarrow> ('p, 's) system" where
  "init_system c = \<lparr>threads = (\<lambda>t. idle_thread), lock_state = init_state c, aborted = False\<rparr>"

text \<open>What a returned call changes in the caller's holdings.\<close>

fun settle :: "lock_method \<Rightarrow> result \<Rightarrow> 'p thread \<Rightarrow> 'p thread" where
  "settle Lock (Returned r) th = th\<lparr>th_excl := th_excl th + 1\<rparr>"
| "settle TryLock (Returned (Some True)) th = th\<lparr>th_excl := th_excl th + 1\<rparr>"
| "settle Unlock (Returned r) th = th\<lparr>th_excl := th_excl th - 1\<rparr>"
| "settle LockShared (Returned r) th = th\<lparr>th_shared := th_shared th + 1\<rparr>"
| "settle TryLockShared (Returned (Some True)) th = th\<lparr>th_shared := th_shared th + 1\<rparr>"
| "settle UnlockShared (Returned r) th = th\<lparr>th_shared := th_shared th - 1\<rparr>"
| "settle m r th = th"

fun is_returned :: "result \<Rightarrow> bool" where
  "is_returned (Returned r) = True"
| "is_returned _ = False"

text \<open>The contract of the callers: \<^verbatim>\<open>unlock()\<close> only by a thread that holds the exclusive
  side, \<^verbatim>\<open>unlock_shared()\<close> only by a thread that holds a shared hold.\<close>

fun may_call :: "lock_method \<Rightarrow> 'p thread \<Rightarrow> bool" where
  "may_call Unlock th = (0 < th_excl th)"
| "may_call UnlockShared th = (0 < th_shared th)"
| "may_call m th = True"

datatype event = Call nat lock_method | Step nat

text \<open>The caller after a step that leads to label \<open>p'\<close>: at \<open>p'\<close>, or between calls again
  with its holdings settled when \<open>p'\<close> is final.\<close>

definition advance :: "('p \<Rightarrow> result option) \<Rightarrow> 'p thread \<Rightarrow> 'p \<Rightarrow> 'p thread" where
  "advance res th p' =
     (case res p' of
        None \<Rightarrow> th\<lparr>th_pc := Some p'\<rparr>
      | Some r \<Rightarrow> settle (th_method th) r (th\<lparr>th_pc := None\<rparr>))"

text \<open>
  \<open>Call t m\<close>: thread \<open>t\<close>, between calls, enters method \<open>m\<close>.  \<open>Step t\<close>: thread \<open>t\<close>
  executes the statement at its label; \<open>ident t\<close> is its \<^verbatim>\<open>g_threadId\<close>.  A failed assert or
  undefined behaviour ends the process: nothing happens after it.  An event that is not
  enabled changes nothing.
\<close>

fun fire ::
  "('p, 's) lock_class \<Rightarrow> (nat \<Rightarrow> size_t) \<Rightarrow> event \<Rightarrow> ('p, 's) system \<Rightarrow> ('p, 's) system" where
  "fire c ident (Call t m) sys =
     (let th = threads sys t in
      if aborted sys \<or> th_pc th \<noteq> None \<or> entry_of c m = None \<or> \<not> may_call m th then sys
      else sys\<lparr>threads := (threads sys)(t := th\<lparr>th_pc := entry_of c m, th_method := m\<rparr>)\<rparr>)"
| "fire c ident (Step t) sys =
     (let th = threads sys t in
      if aborted sys then sys
      else (case th_pc th of
        None \<Rightarrow> sys
      | Some p \<Rightarrow>
          (case step_of c (ident t) p (lock_state sys) of (p', s') \<Rightarrow>
             sys\<lparr>threads := (threads sys)(t := advance (result_at c) th p'),
                 lock_state := s',
                 aborted := (case result_at c p' of None \<Rightarrow> False | Some r \<Rightarrow> \<not> is_returned r)\<rparr>)))"

fun exec ::
  "('p, 's) lock_class \<Rightarrow> (nat \<Rightarrow> size_t) \<Rightarrow> event list \<Rightarrow> ('p, 's) system \<Rightarrow> ('p, 's) system" where
  "exec c ident [] sys = sys"
| "exec c ident (e # es) sys = exec c ident es (fire c ident e sys)"

fun sm_result :: "sm_label \<Rightarrow> result option" where
  "sm_result (SM_end r) = Some r"
| "sm_result _ = None"

fun ss_result :: "ss_label \<Rightarrow> result option" where
  "ss_result (SS_end r) = Some r"
| "ss_result _ = None"

fun rs_result :: "rs_label \<Rightarrow> result option" where
  "rs_result (RS_end r) = Some r"
| "rs_result _ = None"

fun rss_result :: "rss_label \<Rightarrow> result option" where
  "rss_result (RSS_end r) = Some r"
| "rss_result _ = None"

definition SpinMutex_class :: "(sm_label, SpinMutex) lock_class" where
  "SpinMutex_class = \<lparr>entry_of = sm_entry, step_of = SpinMutex_step,
     result_at = sm_result, init_state = SpinMutex_init\<rparr>"

definition SharedSpinMutex_class :: "(ss_label, SharedSpinMutex) lock_class" where
  "SharedSpinMutex_class = \<lparr>entry_of = ss_entry, step_of = SharedSpinMutex_step,
     result_at = ss_result, init_state = SharedSpinMutex_init\<rparr>"

definition ReentrantSpinMutex_class :: "(rs_label, ReentrantSpinMutex) lock_class" where
  "ReentrantSpinMutex_class = \<lparr>entry_of = rs_entry, step_of = ReentrantSpinMutex_step,
     result_at = rs_result, init_state = ReentrantSpinMutex_init\<rparr>"

definition ReentrantSharedSpinMutex_class ::
  "(rss_label, ReentrantSharedSpinMutex) lock_class" where
  "ReentrantSharedSpinMutex_class = \<lparr>entry_of = rss_entry,
     step_of = ReentrantSharedSpinMutex_step, result_at = rss_result,
     init_state = ReentrantSharedSpinMutex_init\<rparr>"

text \<open>Thread \<open>t\<close> is inside a critical section of the exclusive side.\<close>

definition in_critical :: "('p, 's) system \<Rightarrow> nat \<Rightarrow> bool" where
  "in_critical sys t = (0 < th_excl (threads sys t))"

subsection \<open>Outstanding increments of the reader count\<close>

text \<open>
  The method a label belongs to, and the labels at which a call of \<^verbatim>\<open>lock_shared\<close> or
  \<^verbatim>\<open>try_lock_shared\<close> has executed \<^verbatim>\<open>fetch_add\<close> and neither returned nor executed the
  \<^verbatim>\<open>fetch_sub\<close> that takes the increment back.
\<close>

fun ss_method_of :: "ss_label \<Rightarrow> lock_method option" where
  "ss_method_of SS_lock_xchg = Some Lock"
| "ss_method_of SS_lock_drain = Some Lock"
| "ss_method_of SS_lock_set_owner = Some Lock"
| "ss_method_of SS_try_count = Some TryLock"
| "ss_method_of SS_try_xchg = Some TryLock"
| "ss_method_of SS_try_recheck = Some TryLock"
| "ss_method_of SS_try_release = Some TryLock"
| "ss_method_of SS_try_set_owner = Some TryLock"
| "ss_method_of SS_unlock_assert = Some Unlock"
| "ss_method_of SS_unlock_clear = Some Unlock"
| "ss_method_of SS_unlock_store = Some Unlock"
| "ss_method_of SS_ls_add = Some LockShared"
| "ss_method_of SS_ls_load = Some LockShared"
| "ss_method_of SS_ls_sub = Some LockShared"
| "ss_method_of SS_tls_load = Some TryLockShared"
| "ss_method_of SS_tls_add = Some TryLockShared"
| "ss_method_of SS_tls_recheck = Some TryLockShared"
| "ss_method_of SS_tls_sub = Some TryLockShared"
| "ss_method_of SS_us_assert = Some UnlockShared"
| "ss_method_of SS_us_sub = Some UnlockShared"
| "ss_method_of (SS_end r) = None"

fun ss_in_flight :: "ss_label \<Rightarrow> bool" where
  "ss_in_flight SS_ls_load = True"
| "ss_in_flight SS_ls_sub = True"
| "ss_in_flight SS_tls_recheck = True"
| "ss_in_flight SS_tls_sub = True"
| "ss_in_flight _ = False"

fun rss_method_of :: "rss_label \<Rightarrow> lock_method option" where
  "rss_method_of RSS_lock_owner = Some Lock"
| "rss_method_of RSS_lock_assert_pos = Some Lock"
| "rss_method_of RSS_lock_inc = Some Lock"
| "rss_method_of RSS_lock_xchg = Some Lock"
| "rss_method_of RSS_lock_drain = Some Lock"
| "rss_method_of RSS_lock_assert_zero = Some Lock"
| "rss_method_of RSS_lock_set_owner = Some Lock"
| "rss_method_of RSS_lock_set_count = Some Lock"
| "rss_method_of RSS_try_owner = Some TryLock"
| "rss_method_of RSS_try_assert_pos = Some TryLock"
| "rss_method_of RSS_try_inc = Some TryLock"
| "rss_method_of RSS_try_count = Some TryLock"
| "rss_method_of RSS_try_xchg = Some TryLock"
| "rss_method_of RSS_try_recheck = Some TryLock"
| "rss_method_of RSS_try_release = Some TryLock"
| "rss_method_of RSS_try_assert_zero = Some TryLock"
| "rss_method_of RSS_try_set_owner = Some TryLock"
| "rss_method_of RSS_try_set_count = Some TryLock"
| "rss_method_of RSS_unlock_assert = Some Unlock"
| "rss_method_of RSS_unlock_dec = Some Unlock"
| "rss_method_of RSS_unlock_test = Some Unlock"
| "rss_method_of RSS_unlock_clear = Some Unlock"
| "rss_method_of RSS_unlock_store = Some Unlock"
| "rss_method_of RSS_ls_add = Some LockShared"
| "rss_method_of RSS_ls_load = Some LockShared"
| "rss_method_of RSS_ls_sub = Some LockShared"
| "rss_method_of RSS_tls_load = Some TryLockShared"
| "rss_method_of RSS_tls_add = Some TryLockShared"
| "rss_method_of RSS_tls_recheck = Some TryLockShared"
| "rss_method_of RSS_tls_sub = Some TryLockShared"
| "rss_method_of RSS_us_sub = Some UnlockShared"
| "rss_method_of (RSS_end r) = None"

fun rss_in_flight :: "rss_label \<Rightarrow> bool" where
  "rss_in_flight RSS_ls_load = True"
| "rss_in_flight RSS_ls_sub = True"
| "rss_in_flight RSS_tls_recheck = True"
| "rss_in_flight RSS_tls_sub = True"
| "rss_in_flight _ = False"

text \<open>What a thread has added to the reader count and not yet taken back: its shared
  holds, and one more while a call of its own is in flight.\<close>

definition outstanding :: "('p \<Rightarrow> bool) \<Rightarrow> 'p thread \<Rightarrow> nat" where
  "outstanding fl th =
     th_shared th + (case th_pc th of None \<Rightarrow> 0 | Some p \<Rightarrow> if fl p then 1 else 0)"

definition outstanding_total :: "('p \<Rightarrow> bool) \<Rightarrow> ('p, 's) system \<Rightarrow> nat \<Rightarrow> nat" where
  "outstanding_total fl sys N = (\<Sum>t<N. outstanding fl (threads sys t))"

text \<open>A thread inside a call is at a label of the method it called, and inside
  \<^verbatim>\<open>unlock_shared\<close> only with a shared hold.\<close>

definition thread_ok :: "('p \<Rightarrow> lock_method option) \<Rightarrow> 'p thread \<Rightarrow> bool" where
  "thread_ok mo th =
     (case th_pc th of
        None \<Rightarrow> True
      | Some p \<Rightarrow> mo p = Some (th_method th) \<and> (th_method th = UnlockShared \<longrightarrow> 0 < th_shared th))"

text \<open>The reader count \<open>rc\<close> of the lock is the sum, in 32-bit arithmetic, of what the
  threads below \<open>N\<close> have outstanding.\<close>

definition readers_inv ::
  "('p \<Rightarrow> bool) \<Rightarrow> ('p \<Rightarrow> lock_method option) \<Rightarrow> ('s \<Rightarrow> int32_t) \<Rightarrow> nat \<Rightarrow> ('p, 's) system \<Rightarrow> bool"
where
  "readers_inv fl mo rc N sys =
     ((\<forall>t. thread_ok mo (threads sys t)) \<and>
      rc (lock_state sys) = (\<Sum>t<N. of_nat (outstanding fl (threads sys t))))"

fun thread_of :: "event \<Rightarrow> nat" where
  "thread_of (Call t m) = t"
| "thread_of (Step t) = t"

text \<open>One round of a reader that keeps what it takes: \<^verbatim>\<open>lock_shared()\<close> called and run to
  its return by thread 0.\<close>

definition lock_shared_round :: "event list" where
  "lock_shared_round = [Call 0 LockShared, Step 0, Step 0]"

text \<open>The events of a run that are not thread \<open>t\<close>'s: the same run without what \<open>t\<close>
  called.\<close>

definition without_thread :: "nat \<Rightarrow> event list \<Rightarrow> event list" where
  "without_thread t evs = filter (\<lambda>e. thread_of e \<noteq> t) evs"

text \<open>Thread 1 calls \<^verbatim>\<open>try_lock_shared()\<close> and loads the flag; thread 0 calls \<^verbatim>\<open>try_lock()\<close>,
  loads the reader count and wins the exchange; thread 1 increments the reader count;
  thread 0 sees it; thread 1 sees the flag; thread 0 stores the flag back and returns
  false; thread 1 takes its increment back and returns false.\<close>

definition try_lock_race :: "event list" where
  "try_lock_race =
     [Call 1 TryLockShared, Step 1, Call 0 TryLock, Step 0, Step 0, Step 1, Step 0, Step 1,
      Step 0, Step 1]"

text \<open>The same race on a \<^verbatim>\<open>ReentrantSharedSpinMutex\<close>, where \<^verbatim>\<open>try_lock()\<close> has the owner
  test as one more step before the load of the reader count.\<close>

definition rss_try_lock_race :: "event list" where
  "rss_try_lock_race =
     [Call 1 TryLockShared, Step 1, Call 0 TryLock, Step 0, Step 0, Step 0, Step 1, Step 0,
      Step 1, Step 0, Step 1]"

text \<open>Thread 0 is between calls, the process runs, no writer has the flag and the reader
  count is \<open>n\<close> in 32 bits.\<close>

definition ss_readers_only :: "(ss_label, SharedSpinMutex) system \<Rightarrow> nat \<Rightarrow> bool" where
  "ss_readers_only sys n = (th_pc (threads sys 0) = None \<and> \<not> aborted sys \<and>
     \<not> ss_writeFlag (lock_state sys) \<and> ss_readCount (lock_state sys) = of_nat n)"

subsection \<open>Who has the flag\<close>

text \<open>
  The labels of \<^verbatim>\<open>SpinMutex\<close> and \<^verbatim>\<open>SharedSpinMutex\<close> at which the call in progress has won
  the exchange on the flag and not yet returned or stored the flag back.
\<close>

fun sm_method_of :: "sm_label \<Rightarrow> lock_method option" where
  "sm_method_of SM_lock_xchg = Some Lock"
| "sm_method_of SM_lock_set_owner = Some Lock"
| "sm_method_of SM_try_load = Some TryLock"
| "sm_method_of SM_try_xchg = Some TryLock"
| "sm_method_of SM_try_set_owner = Some TryLock"
| "sm_method_of SM_unlock_assert = Some Unlock"
| "sm_method_of SM_unlock_clear = Some Unlock"
| "sm_method_of SM_unlock_store = Some Unlock"
| "sm_method_of (SM_end r) = None"

fun sm_has_flag :: "sm_label \<Rightarrow> bool" where
  "sm_has_flag SM_lock_set_owner = True"
| "sm_has_flag SM_try_set_owner = True"
| "sm_has_flag _ = False"

fun ss_has_flag :: "ss_label \<Rightarrow> bool" where
  "ss_has_flag SS_lock_drain = True"
| "ss_has_flag SS_lock_set_owner = True"
| "ss_has_flag SS_try_recheck = True"
| "ss_has_flag SS_try_release = True"
| "ss_has_flag SS_try_set_owner = True"
| "ss_has_flag _ = False"

text \<open>A thread has the flag when it holds the exclusive side or its call in progress has
  won the exchange.\<close>

definition holds_flag :: "('p \<Rightarrow> bool) \<Rightarrow> 'p thread \<Rightarrow> bool" where
  "holds_flag hl th =
     (0 < th_excl th \<or> (case th_pc th of None \<Rightarrow> False | Some p \<Rightarrow> hl p))"

definition excl_ok :: "('p \<Rightarrow> lock_method option) \<Rightarrow> ('p \<Rightarrow> bool) \<Rightarrow> 'p thread \<Rightarrow> bool" where
  "excl_ok mo hl th =
     (th_excl th \<le> 1 \<and>
      (case th_pc th of
         None \<Rightarrow> True
       | Some p \<Rightarrow> mo p = Some (th_method th) \<and> (th_method th = Unlock \<longrightarrow> 0 < th_excl th) \<and>
           (hl p \<longrightarrow> th_excl th = 0)))"

text \<open>The flag is set exactly when some thread has it, and at most one thread has it.\<close>

definition mutex_inv ::
  "('p \<Rightarrow> lock_method option) \<Rightarrow> ('p \<Rightarrow> bool) \<Rightarrow> ('s \<Rightarrow> bool) \<Rightarrow> ('p, 's) system \<Rightarrow> bool" where
  "mutex_inv mo hl flag sys =
     ((\<forall>t. excl_ok mo hl (threads sys t)) \<and>
      (\<forall>t. holds_flag hl (threads sys t) \<longrightarrow> flag (lock_state sys)) \<and>
      (flag (lock_state sys) \<longrightarrow> (\<exists>t. holds_flag hl (threads sys t))) \<and>
      (\<forall>t u. holds_flag hl (threads sys t) \<and> holds_flag hl (threads sys u) \<longrightarrow> t = u))"

subsection \<open>Who owns a reentrant lock\<close>

text \<open>The fields that decide exclusive ownership: flag, owner, reentry count.  Nobody has
  the lock when the flag is clear and owner and count are 0; a thread with \<^verbatim>\<open>g_threadId = g\<close>
  that does not have it is kept out when the flag is set and the owner is not \<open>g\<close>.\<close>

type_synonym core = "bool \<times> size_t \<times> int32_t"

definition core_free :: "core \<Rightarrow> bool" where
  "core_free k = (case k of (f, ow, c) \<Rightarrow> \<not> f \<and> ow = 0 \<and> c = 0)"

definition core_blocked :: "size_t \<Rightarrow> core \<Rightarrow> bool" where
  "core_blocked g k = (case k of (f, ow, c) \<Rightarrow> f \<and> ow \<noteq> g)"

text \<open>Either exactly one thread has the flag and the fields are as that thread's label
  requires, or no thread has it and the fields are those of a free lock.\<close>

definition owner_inv ::
  "('p thread \<Rightarrow> bool) \<Rightarrow> ('p \<Rightarrow> bool) \<Rightarrow> (size_t \<Rightarrow> 'p thread \<Rightarrow> core \<Rightarrow> bool) \<Rightarrow> ('s \<Rightarrow> core)
     \<Rightarrow> (nat \<Rightarrow> size_t) \<Rightarrow> nat set \<Rightarrow> ('p, 's) system \<Rightarrow> bool" where
  "owner_inv tok hl hs core ident A sys =
     ((\<forall>t. tok (threads sys t)) \<and>
      ((\<exists>t\<in>A. holds_flag hl (threads sys t) \<and> hs (ident t) (threads sys t) (core (lock_state sys)) \<and>
            (\<forall>u. u \<noteq> t \<longrightarrow> \<not> holds_flag hl (threads sys u))) \<or>
       ((\<forall>u. \<not> holds_flag hl (threads sys u)) \<and> core_free (core (lock_state sys)))))"

text \<open>\<^verbatim>\<open>ReentrantSpinMutex\<close>: the labels after a won exchange, the labels only the owner
  reaches, the labels only a thread that is not the owner reaches, and owner and count at
  each label of the thread that has the flag and holds the lock \<open>k\<close> times.\<close>

definition rs_core :: "ReentrantSpinMutex \<Rightarrow> core" where
  "rs_core s = (rs_flag s, rs_owner s, rs_reenCount s)"

fun rs_method_of :: "rs_label \<Rightarrow> lock_method option" where
  "rs_method_of RS_lock_owner = Some Lock"
| "rs_method_of RS_lock_inc = Some Lock"
| "rs_method_of RS_lock_xchg = Some Lock"
| "rs_method_of RS_lock_assert = Some Lock"
| "rs_method_of RS_lock_set_owner = Some Lock"
| "rs_method_of RS_lock_set_count = Some Lock"
| "rs_method_of RS_try_owner = Some TryLock"
| "rs_method_of RS_try_inc = Some TryLock"
| "rs_method_of RS_try_load = Some TryLock"
| "rs_method_of RS_try_xchg = Some TryLock"
| "rs_method_of RS_try_assert = Some TryLock"
| "rs_method_of RS_try_set_owner = Some TryLock"
| "rs_method_of RS_try_set_count = Some TryLock"
| "rs_method_of RS_unlock_assert = Some Unlock"
| "rs_method_of RS_unlock_dec = Some Unlock"
| "rs_method_of RS_unlock_test = Some Unlock"
| "rs_method_of RS_unlock_clear = Some Unlock"
| "rs_method_of RS_unlock_store = Some Unlock"
| "rs_method_of (RS_end r) = None"

fun rs_has_flag :: "rs_label \<Rightarrow> bool" where
  "rs_has_flag RS_lock_assert = True"
| "rs_has_flag RS_lock_set_owner = True"
| "rs_has_flag RS_lock_set_count = True"
| "rs_has_flag RS_try_assert = True"
| "rs_has_flag RS_try_set_owner = True"
| "rs_has_flag RS_try_set_count = True"
| "rs_has_flag _ = False"

fun rs_owner_only :: "rs_label \<Rightarrow> bool" where
  "rs_owner_only RS_lock_inc = True"
| "rs_owner_only RS_try_inc = True"
| "rs_owner_only _ = False"

fun rs_contender_only :: "rs_label \<Rightarrow> bool" where
  "rs_contender_only RS_lock_xchg = True"
| "rs_contender_only RS_try_load = True"
| "rs_contender_only RS_try_xchg = True"
| "rs_contender_only _ = False"

text \<open>Held \<open>k\<close> times by \<open>g\<close>; the same just after \<^verbatim>\<open>_reenCount--\<close>.\<close>

definition nested :: "size_t \<Rightarrow> nat \<Rightarrow> size_t \<Rightarrow> int32_t \<Rightarrow> bool" where
  "nested g k ow c = (0 < k \<and> k < 2 ^ 31 \<and> ow = g \<and> c = of_nat k)"

definition after_dec :: "size_t \<Rightarrow> nat \<Rightarrow> size_t \<Rightarrow> int32_t \<Rightarrow> bool" where
  "after_dec g k ow c = (0 < k \<and> k < 2 ^ 31 \<and> ow = g \<and> c + 1 = of_nat k)"

fun rs_at :: "rs_label \<Rightarrow> size_t \<Rightarrow> nat \<Rightarrow> size_t \<Rightarrow> int32_t \<Rightarrow> bool" where
  "rs_at RS_lock_assert g k ow c = (ow = 0 \<and> c = 0)"
| "rs_at RS_lock_set_owner g k ow c = (ow = 0 \<and> c = 0)"
| "rs_at RS_lock_set_count g k ow c = (ow = g \<and> c = 0)"
| "rs_at RS_try_assert g k ow c = (ow = 0 \<and> c = 0)"
| "rs_at RS_try_set_owner g k ow c = (ow = 0 \<and> c = 0)"
| "rs_at RS_try_set_count g k ow c = (ow = g \<and> c = 0)"
| "rs_at RS_unlock_test g k ow c = after_dec g k ow c"
| "rs_at RS_unlock_clear g k ow c = (k = 1 \<and> ow = g \<and> c = 0)"
| "rs_at RS_unlock_store g k ow c = (k = 1 \<and> ow = 0 \<and> c = 0)"
| "rs_at RS_lock_xchg g k ow c = False"
| "rs_at RS_try_load g k ow c = False"
| "rs_at RS_try_xchg g k ow c = False"
| "rs_at (RS_end r) g k ow c = False"
| "rs_at p g k ow c = nested g k ow c"

definition rs_holder :: "size_t \<Rightarrow> rs_label thread \<Rightarrow> core \<Rightarrow> bool" where
  "rs_holder g th k =
     (case k of (f, ow, c) \<Rightarrow>
        f \<and> (case th_pc th of
               None \<Rightarrow> nested g (th_excl th) ow c
             | Some p \<Rightarrow> rs_at p g (th_excl th) ow c))"

definition rs_tok :: "rs_label thread \<Rightarrow> bool" where
  "rs_tok th =
     (case th_pc th of
        None \<Rightarrow> True
      | Some p \<Rightarrow> rs_method_of p = Some (th_method th) \<and>
          (th_method th = Unlock \<longrightarrow> 0 < th_excl th) \<and>
          (rs_has_flag p \<longrightarrow> th_excl th = 0) \<and>
          (rs_owner_only p \<longrightarrow> 0 < th_excl th) \<and>
          (rs_contender_only p \<longrightarrow> th_excl th = 0))"

text \<open>The same for \<^verbatim>\<open>ReentrantSharedSpinMutex\<close>.\<close>

definition rss_core :: "ReentrantSharedSpinMutex \<Rightarrow> core" where
  "rss_core s = (rss_writeFlag s, rss_owner s, rss_reenCount s)"

fun rss_has_flag :: "rss_label \<Rightarrow> bool" where
  "rss_has_flag RSS_lock_drain = True"
| "rss_has_flag RSS_lock_assert_zero = True"
| "rss_has_flag RSS_lock_set_owner = True"
| "rss_has_flag RSS_lock_set_count = True"
| "rss_has_flag RSS_try_recheck = True"
| "rss_has_flag RSS_try_release = True"
| "rss_has_flag RSS_try_assert_zero = True"
| "rss_has_flag RSS_try_set_owner = True"
| "rss_has_flag RSS_try_set_count = True"
| "rss_has_flag _ = False"

fun rss_owner_only :: "rss_label \<Rightarrow> bool" where
  "rss_owner_only RSS_lock_assert_pos = True"
| "rss_owner_only RSS_lock_inc = True"
| "rss_owner_only RSS_try_assert_pos = True"
| "rss_owner_only RSS_try_inc = True"
| "rss_owner_only _ = False"

fun rss_contender_only :: "rss_label \<Rightarrow> bool" where
  "rss_contender_only RSS_lock_xchg = True"
| "rss_contender_only RSS_try_count = True"
| "rss_contender_only RSS_try_xchg = True"
| "rss_contender_only _ = False"

fun rss_at :: "rss_label \<Rightarrow> size_t \<Rightarrow> nat \<Rightarrow> size_t \<Rightarrow> int32_t \<Rightarrow> bool" where
  "rss_at RSS_lock_drain g k ow c = (ow = 0 \<and> c = 0)"
| "rss_at RSS_lock_assert_zero g k ow c = (ow = 0 \<and> c = 0)"
| "rss_at RSS_lock_set_owner g k ow c = (ow = 0 \<and> c = 0)"
| "rss_at RSS_lock_set_count g k ow c = (ow = g \<and> c = 0)"
| "rss_at RSS_try_recheck g k ow c = (ow = 0 \<and> c = 0)"
| "rss_at RSS_try_release g k ow c = (ow = 0 \<and> c = 0)"
| "rss_at RSS_try_assert_zero g k ow c = (ow = 0 \<and> c = 0)"
| "rss_at RSS_try_set_owner g k ow c = (ow = 0 \<and> c = 0)"
| "rss_at RSS_try_set_count g k ow c = (ow = g \<and> c = 0)"
| "rss_at RSS_unlock_test g k ow c = after_dec g k ow c"
| "rss_at RSS_unlock_clear g k ow c = (k = 1 \<and> ow = g \<and> c = 0)"
| "rss_at RSS_unlock_store g k ow c = (k = 1 \<and> ow = 0 \<and> c = 0)"
| "rss_at RSS_lock_xchg g k ow c = False"
| "rss_at RSS_try_count g k ow c = False"
| "rss_at RSS_try_xchg g k ow c = False"
| "rss_at (RSS_end r) g k ow c = False"
| "rss_at p g k ow c = nested g k ow c"

definition rss_holder :: "size_t \<Rightarrow> rss_label thread \<Rightarrow> core \<Rightarrow> bool" where
  "rss_holder g th k =
     (case k of (f, ow, c) \<Rightarrow>
        f \<and> (case th_pc th of
               None \<Rightarrow> nested g (th_excl th) ow c
             | Some p \<Rightarrow> rss_at p g (th_excl th) ow c))"

definition rss_tok :: "rss_label thread \<Rightarrow> bool" where
  "rss_tok th =
     (case th_pc th of
        None \<Rightarrow> True
      | Some p \<Rightarrow> rss_method_of p = Some (th_method th) \<and>
          (th_method th = Unlock \<longrightarrow> 0 < th_excl th) \<and>
          (rss_has_flag p \<longrightarrow> th_excl th = 0) \<and>
          (rss_owner_only p \<longrightarrow> 0 < th_excl th) \<and>
          (rss_contender_only p \<longrightarrow> th_excl th = 0))"

section \<open>Properties\<close>

lemma run_final: "fin p \<Longrightarrow> run fin stp n p s = Some (p, s)"
  by (cases n) simp_all

lemma run_step:
  "\<not> fin p \<Longrightarrow> run fin stp (Suc n) p s = run fin stp n (fst (stp p s)) (snd (stp p s))"
  by (simp add: case_prod_beta)

lemma run_mono: "run fin stp n p s = Some r \<Longrightarrow> run fin stp (n + k) p s = Some r"
proof (induction n arbitrary: p s)
  case 0
  then show ?case by (simp add: run_final split: if_splits)
next
  case (Suc n)
  then show ?case by (auto split: if_splits prod.splits)
qed

lemma run_le: "run fin stp k p s = Some r \<Longrightarrow> k \<le> n \<Longrightarrow> run fin stp n p s = Some r"
  using run_mono [of fin stp k p s r "n - k"] by simp

lemma run_unique:
  assumes "run fin stp n p s = Some r" "run fin stp m p s = Some r'"
  shows "r = r'"
  using run_le [OF assms(1), of "max n m"] run_le [OF assms(2), of "max n m"] by simp

subsection \<open>Exclusive unlock of the reentrant classes\<close>

lemma rs_unlock_5:
  assumes "rs_owner s = g" "sint (rs_reenCount s) \<noteq> - 2147483648"
  shows "rs_call 5 g RS_unlock_assert s = Some (RS_end (Returned None),
        if rs_reenCount s - 1 = 0 then s\<lparr>rs_reenCount := 0, rs_owner := 0, rs_flag := False\<rparr>
        else s\<lparr>rs_reenCount := rs_reenCount s - 1\<rparr>)"
  using assms by (simp add: rs_call_def numeral_nat)

lemma rss_unlock_5:
  assumes "rss_owner s = g" "sint (rss_reenCount s) \<noteq> - 2147483648"
  shows "rss_call 5 g RSS_unlock_assert s = Some (RSS_end (Returned None),
        if rss_reenCount s - 1 = 0
        then s\<lparr>rss_reenCount := 0, rss_owner := 0, rss_writeFlag := False\<rparr>
        else s\<lparr>rss_reenCount := rss_reenCount s - 1\<rparr>)"
  using assms by (simp add: rss_call_def numeral_nat)

text \<open>
  Claim C4.  In a state of \<^verbatim>\<open>ReentrantSpinMutex\<close> or \<^verbatim>\<open>ReentrantSharedSpinMutex\<close> whose
  owner is the caller, \<^verbatim>\<open>unlock()\<close> run to its end (five steps suffice) returns with the
  reentry count decremented by one.  When the decremented count is zero the owner is the
  sentinel 0 and the flag is released; otherwise nothing but the count has changed: the
  flag and the owner are as before.  The count must not be the least \<^verbatim>\<open>int32_t\<close>, where
  \<^verbatim>\<open>--\<close> is undefined.
\<close>

theorem reentrant_unlock_effect:
  "(rs_owner rs = g \<and> sint (rs_reenCount rs) \<noteq> - 2147483648 \<and> 5 \<le> n \<longrightarrow>
     rs_call n g RS_unlock_assert rs = Some (RS_end (Returned None),
        if rs_reenCount rs - 1 = 0
        then rs\<lparr>rs_reenCount := 0, rs_owner := 0, rs_flag := False\<rparr>
        else rs\<lparr>rs_reenCount := rs_reenCount rs - 1\<rparr>)) \<and>
   (rss_owner rss = g \<and> sint (rss_reenCount rss) \<noteq> - 2147483648 \<and> 5 \<le> n \<longrightarrow>
     rss_call n g RSS_unlock_assert rss = Some (RSS_end (Returned None),
        if rss_reenCount rss - 1 = 0
        then rss\<lparr>rss_reenCount := 0, rss_owner := 0, rss_writeFlag := False\<rparr>
        else rss\<lparr>rss_reenCount := rss_reenCount rss - 1\<rparr>))"
  using run_le [OF rs_unlock_5 [unfolded rs_call_def], of rs g n]
        run_le [OF rss_unlock_5 [unfolded rss_call_def], of rss g n]
  by (simp add: rs_call_def rss_call_def)

theorem reentrant_unlock_effect_witness:
  "rs_call 5 7 RS_unlock_assert \<lparr>rs_flag = True, rs_owner = 7, rs_reenCount = 2\<rparr>
     = Some (RS_end (Returned None), \<lparr>rs_flag = True, rs_owner = 7, rs_reenCount = 1\<rparr>)
   \<and> rs_call 5 7 RS_unlock_assert \<lparr>rs_flag = True, rs_owner = 7, rs_reenCount = 1\<rparr>
     = Some (RS_end (Returned None), \<lparr>rs_flag = False, rs_owner = 0, rs_reenCount = 0\<rparr>)
   \<and> rss_call 5 7 RSS_unlock_assert
        \<lparr>rss_readCount = 0, rss_writeFlag = True, rss_owner = 7, rss_reenCount = 2\<rparr>
     = Some (RSS_end (Returned None),
        \<lparr>rss_readCount = 0, rss_writeFlag = True, rss_owner = 7, rss_reenCount = 1\<rparr>)
   \<and> rss_call 5 7 RSS_unlock_assert
        \<lparr>rss_readCount = 0, rss_writeFlag = True, rss_owner = 7, rss_reenCount = 1\<rparr>
     = Some (RSS_end (Returned None),
        \<lparr>rss_readCount = 0, rss_writeFlag = False, rss_owner = 0, rss_reenCount = 0\<rparr>)"
  using reentrant_unlock_effect [of "\<lparr>rs_flag = True, rs_owner = 7, rs_reenCount = 2\<rparr>" 7 5
          "\<lparr>rss_readCount = 0, rss_writeFlag = True, rss_owner = 7, rss_reenCount = 2\<rparr>"]
        reentrant_unlock_effect [of "\<lparr>rs_flag = True, rs_owner = 7, rs_reenCount = 1\<rparr>" 7 5
          "\<lparr>rss_readCount = 0, rss_writeFlag = True, rss_owner = 7, rss_reenCount = 1\<rparr>"]
  by simp

subsection \<open>The assert of the exclusive unlock\<close>

lemma sm_unlock_other:
  "sm_owner s \<noteq> g \<Longrightarrow> sm_call (Suc n) g SM_unlock_assert s = Some (SM_end AssertFailed, s)"
  by (simp add: sm_call_def run_final)

lemma ss_unlock_other:
  "ss_owner s \<noteq> g \<Longrightarrow> ss_call (Suc n) g SS_unlock_assert s = Some (SS_end AssertFailed, s)"
  by (simp add: ss_call_def run_final)

lemma rs_unlock_other:
  "rs_owner s \<noteq> g \<Longrightarrow> rs_call (Suc n) g RS_unlock_assert s = Some (RS_end AssertFailed, s)"
  by (simp add: rs_call_def run_final)

lemma rss_unlock_other:
  "rss_owner s \<noteq> g \<Longrightarrow>
   rss_call (Suc n) g RSS_unlock_assert s = Some (RSS_end AssertFailed, s)"
  by (simp add: rss_call_def run_final)

lemma sm_unlock_owner:
  "sm_owner s = g \<Longrightarrow> sm_call 3 g SM_unlock_assert s =
     Some (SM_end (Returned None), s\<lparr>sm_owner := 0, sm_flag := False\<rparr>)"
  by (simp add: sm_call_def numeral_nat)

lemma ss_unlock_owner:
  "ss_owner s = g \<Longrightarrow> ss_call 3 g SS_unlock_assert s =
     Some (SS_end (Returned None), s\<lparr>ss_owner := 0, ss_writeFlag := False\<rparr>)"
  by (simp add: ss_call_def numeral_nat)

lemma rs_unlock_owner:
  "rs_owner s = g \<Longrightarrow>
   \<exists>r s'. rs_call 5 g RS_unlock_assert s = Some (RS_end r, s') \<and> r \<noteq> AssertFailed"
  by (simp add: rs_call_def numeral_nat)

lemma rss_unlock_owner:
  "rss_owner s = g \<Longrightarrow>
   \<exists>r s'. rss_call 5 g RSS_unlock_assert s = Some (RSS_end r, s') \<and> r \<noteq> AssertFailed"
  by (simp add: rss_call_def numeral_nat)

lemma sm_unlock_assert:
  "(sm_owner s \<noteq> g \<longrightarrow> sm_call (Suc n) g SM_unlock_assert s = Some (SM_end AssertFailed, s)) \<and>
   (sm_owner s = g \<longrightarrow> sm_call n g SM_unlock_assert s \<noteq> Some (SM_end AssertFailed, s'))"
  using sm_unlock_other [of s g n] sm_unlock_owner [of s g]
    run_unique [of sm_final "SpinMutex_step g" n SM_unlock_assert s _ 3]
  by (auto simp: sm_call_def)

lemma ss_unlock_assert:
  "(ss_owner s \<noteq> g \<longrightarrow> ss_call (Suc n) g SS_unlock_assert s = Some (SS_end AssertFailed, s)) \<and>
   (ss_owner s = g \<longrightarrow> ss_call n g SS_unlock_assert s \<noteq> Some (SS_end AssertFailed, s'))"
  using ss_unlock_other [of s g n] ss_unlock_owner [of s g]
    run_unique [of ss_final "SharedSpinMutex_step g" n SS_unlock_assert s _ 3]
  by (auto simp: ss_call_def)

lemma rs_unlock_assert:
  "(rs_owner s \<noteq> g \<longrightarrow> rs_call (Suc n) g RS_unlock_assert s = Some (RS_end AssertFailed, s)) \<and>
   (rs_owner s = g \<longrightarrow> rs_call n g RS_unlock_assert s \<noteq> Some (RS_end AssertFailed, s'))"
  using rs_unlock_other [of s g n] rs_unlock_owner [of s g]
    run_unique [of rs_final "ReentrantSpinMutex_step g" n RS_unlock_assert s _ 5]
  by (auto simp: rs_call_def)

lemma rss_unlock_assert:
  "(rss_owner s \<noteq> g \<longrightarrow>
      rss_call (Suc n) g RSS_unlock_assert s = Some (RSS_end AssertFailed, s)) \<and>
   (rss_owner s = g \<longrightarrow> rss_call n g RSS_unlock_assert s \<noteq> Some (RSS_end AssertFailed, s'))"
  using rss_unlock_other [of s g n] rss_unlock_owner [of s g]
    run_unique [of rss_final "ReentrantSharedSpinMutex_step g" n RSS_unlock_assert s _ 5]
  by (auto simp: rss_call_def)

text \<open>
  Claim C8.  In each of the four classes, \<^verbatim>\<open>unlock()\<close> called by a thread whose
  \<^verbatim>\<open>g_threadId\<close> differs from the recorded owner ends in the failed assert, at its first
  step and with the lock unchanged; called by a thread whose \<^verbatim>\<open>g_threadId\<close> equals the
  recorded owner it never ends in a failed assert, whatever the number of steps.
\<close>

theorem unlock_assert_iff_not_owner:
  "((sm_owner sm \<noteq> g \<longrightarrow>
       sm_call (Suc n) g SM_unlock_assert sm = Some (SM_end AssertFailed, sm)) \<and>
    (sm_owner sm = g \<longrightarrow> sm_call n g SM_unlock_assert sm \<noteq> Some (SM_end AssertFailed, sm'))) \<and>
   ((ss_owner ss \<noteq> g \<longrightarrow>
       ss_call (Suc n) g SS_unlock_assert ss = Some (SS_end AssertFailed, ss)) \<and>
    (ss_owner ss = g \<longrightarrow> ss_call n g SS_unlock_assert ss \<noteq> Some (SS_end AssertFailed, ss'))) \<and>
   ((rs_owner rs \<noteq> g \<longrightarrow>
       rs_call (Suc n) g RS_unlock_assert rs = Some (RS_end AssertFailed, rs)) \<and>
    (rs_owner rs = g \<longrightarrow> rs_call n g RS_unlock_assert rs \<noteq> Some (RS_end AssertFailed, rs'))) \<and>
   ((rss_owner rss \<noteq> g \<longrightarrow>
       rss_call (Suc n) g RSS_unlock_assert rss = Some (RSS_end AssertFailed, rss)) \<and>
    (rss_owner rss = g \<longrightarrow>
       rss_call n g RSS_unlock_assert rss \<noteq> Some (RSS_end AssertFailed, rss')))"
  by (intro conjI sm_unlock_assert [THEN conjunct1] sm_unlock_assert [THEN conjunct2]
      ss_unlock_assert [THEN conjunct1] ss_unlock_assert [THEN conjunct2]
      rs_unlock_assert [THEN conjunct1] rs_unlock_assert [THEN conjunct2]
      rss_unlock_assert [THEN conjunct1] rss_unlock_assert [THEN conjunct2])

theorem unlock_assert_iff_not_owner_witness:
  "(sm_call 1 5 SM_unlock_assert \<lparr>sm_flag = True, sm_owner = 7\<rparr>
      = Some (SM_end AssertFailed, \<lparr>sm_flag = True, sm_owner = 7\<rparr>) \<and>
    ss_call 1 5 SS_unlock_assert \<lparr>ss_readCount = 0, ss_writeFlag = True, ss_owner = 7\<rparr>
      = Some (SS_end AssertFailed, \<lparr>ss_readCount = 0, ss_writeFlag = True, ss_owner = 7\<rparr>) \<and>
    rs_call 1 5 RS_unlock_assert \<lparr>rs_flag = True, rs_owner = 7, rs_reenCount = 1\<rparr>
      = Some (RS_end AssertFailed, \<lparr>rs_flag = True, rs_owner = 7, rs_reenCount = 1\<rparr>) \<and>
    rss_call 1 5 RSS_unlock_assert
        \<lparr>rss_readCount = 0, rss_writeFlag = True, rss_owner = 7, rss_reenCount = 1\<rparr>
      = Some (RSS_end AssertFailed,
        \<lparr>rss_readCount = 0, rss_writeFlag = True, rss_owner = 7, rss_reenCount = 1\<rparr>)) \<and>
   (sm_call 1 7 SM_unlock_assert \<lparr>sm_flag = True, sm_owner = 7\<rparr>
      \<noteq> Some (SM_end AssertFailed, \<lparr>sm_flag = True, sm_owner = 7\<rparr>) \<and>
    ss_call 1 7 SS_unlock_assert \<lparr>ss_readCount = 0, ss_writeFlag = True, ss_owner = 7\<rparr>
      \<noteq> Some (SS_end AssertFailed, \<lparr>ss_readCount = 0, ss_writeFlag = True, ss_owner = 7\<rparr>) \<and>
    rs_call 1 7 RS_unlock_assert \<lparr>rs_flag = True, rs_owner = 7, rs_reenCount = 1\<rparr>
      \<noteq> Some (RS_end AssertFailed, \<lparr>rs_flag = True, rs_owner = 7, rs_reenCount = 1\<rparr>) \<and>
    rss_call 1 7 RSS_unlock_assert
        \<lparr>rss_readCount = 0, rss_writeFlag = True, rss_owner = 7, rss_reenCount = 1\<rparr>
      \<noteq> Some (RSS_end AssertFailed,
        \<lparr>rss_readCount = 0, rss_writeFlag = True, rss_owner = 7, rss_reenCount = 1\<rparr>))"
  using unlock_assert_iff_not_owner [of "\<lparr>sm_flag = True, sm_owner = 7\<rparr>" 5 0
      "\<lparr>sm_flag = True, sm_owner = 7\<rparr>"
      "\<lparr>ss_readCount = 0, ss_writeFlag = True, ss_owner = 7\<rparr>"
      "\<lparr>ss_readCount = 0, ss_writeFlag = True, ss_owner = 7\<rparr>"
      "\<lparr>rs_flag = True, rs_owner = 7, rs_reenCount = 1\<rparr>"
      "\<lparr>rs_flag = True, rs_owner = 7, rs_reenCount = 1\<rparr>"
      "\<lparr>rss_readCount = 0, rss_writeFlag = True, rss_owner = 7, rss_reenCount = 1\<rparr>"
      "\<lparr>rss_readCount = 0, rss_writeFlag = True, rss_owner = 7, rss_reenCount = 1\<rparr>"]
    unlock_assert_iff_not_owner [of "\<lparr>sm_flag = True, sm_owner = 7\<rparr>" 7 1
      "\<lparr>sm_flag = True, sm_owner = 7\<rparr>"
      "\<lparr>ss_readCount = 0, ss_writeFlag = True, ss_owner = 7\<rparr>"
      "\<lparr>ss_readCount = 0, ss_writeFlag = True, ss_owner = 7\<rparr>"
      "\<lparr>rs_flag = True, rs_owner = 7, rs_reenCount = 1\<rparr>"
      "\<lparr>rs_flag = True, rs_owner = 7, rs_reenCount = 1\<rparr>"
      "\<lparr>rss_readCount = 0, rss_writeFlag = True, rss_owner = 7, rss_reenCount = 1\<rparr>"
      "\<lparr>rss_readCount = 0, rss_writeFlag = True, rss_owner = 7, rss_reenCount = 1\<rparr>"]
  by simp

subsection \<open>\<^verbatim>\<open>read_locked_count()\<close>\<close>

lemma uint_of_sint32: "uint (w :: 32 word) = sint w mod 2 ^ 32"
  by (simp add: uint_sint take_bit_eq_mod)

lemma uint_nonneg32: "0 \<le> sint (w :: 32 word) \<Longrightarrow> uint w = sint w"
  using sint_lt [of w] by (simp add: uint_of_sint32)

lemma uint_neg32: "sint (w :: 32 word) < 0 \<Longrightarrow> 2 ^ 31 \<le> uint w"
proof -
  assume n: "sint w < 0"
  have lo: "- (2 ^ 31) \<le> sint w" using sint_ge [of w] by simp
  have "(sint w + 2 ^ 32) mod 2 ^ 32 = sint w + 2 ^ 32"
    using n lo by (intro mod_pos_pos_trivial) simp_all
  then have "uint w = sint w + 2 ^ 32" by (simp add: uint_of_sint32)
  with lo show ?thesis by simp
qed

text \<open>
  Claim C10.  \<^verbatim>\<open>read_locked_count()\<close> of \<^verbatim>\<open>SharedSpinMutex\<close> and of
  \<^verbatim>\<open>ReentrantSharedSpinMutex\<close> returns the signed 32-bit reader count as an unsigned
  32-bit integer: the count itself when it is not negative, and the count modulo \<open>2^32\<close>,
  which is at least \<open>2^31\<close>, when it is negative.
\<close>

theorem read_locked_count_unsigned:
  "(0 \<le> sint (ss_readCount ss) \<longrightarrow> uint (ss_read_locked_count ss) = sint (ss_readCount ss)) \<and>
   (sint (ss_readCount ss) < 0 \<longrightarrow>
      uint (ss_read_locked_count ss) = sint (ss_readCount ss) mod 2 ^ 32 \<and>
      2 ^ 31 \<le> uint (ss_read_locked_count ss)) \<and>
   (0 \<le> sint (rss_readCount rss) \<longrightarrow>
      uint (rss_read_locked_count rss) = sint (rss_readCount rss)) \<and>
   (sint (rss_readCount rss) < 0 \<longrightarrow>
      uint (rss_read_locked_count rss) = sint (rss_readCount rss) mod 2 ^ 32 \<and>
      2 ^ 31 \<le> uint (rss_read_locked_count rss))"
  using uint_nonneg32 [of "ss_readCount ss"] uint_neg32 [of "ss_readCount ss"]
    uint_of_sint32 [of "ss_readCount ss"]
    uint_nonneg32 [of "rss_readCount rss"] uint_neg32 [of "rss_readCount rss"]
    uint_of_sint32 [of "rss_readCount rss"]
  by (simp add: ss_read_locked_count_def rss_read_locked_count_def)

theorem read_locked_count_unsigned_witness:
  "uint (ss_read_locked_count \<lparr>ss_readCount = 4, ss_writeFlag = False, ss_owner = 0\<rparr>) = 4 \<and>
   uint (ss_read_locked_count \<lparr>ss_readCount = - 1, ss_writeFlag = True, ss_owner = 7\<rparr>)
     = 4294967295 \<and>
   uint (rss_read_locked_count
     \<lparr>rss_readCount = 4, rss_writeFlag = False, rss_owner = 0, rss_reenCount = 0\<rparr>) = 4 \<and>
   uint (rss_read_locked_count
     \<lparr>rss_readCount = - 1, rss_writeFlag = True, rss_owner = 7, rss_reenCount = 1\<rparr>)
     = 4294967295"
  using read_locked_count_unsigned
      [of "\<lparr>ss_readCount = 4, ss_writeFlag = False, ss_owner = 0\<rparr>"
          "\<lparr>rss_readCount = 4, rss_writeFlag = False, rss_owner = 0, rss_reenCount = 0\<rparr>"]
    read_locked_count_unsigned
      [of "\<lparr>ss_readCount = - 1, ss_writeFlag = True, ss_owner = 7\<rparr>"
          "\<lparr>rss_readCount = - 1, rss_writeFlag = True, rss_owner = 7, rss_reenCount = 1\<rparr>"]
  by simp

subsection \<open>Nested exclusive acquisition\<close>

lemma path_final: "fin p \<Longrightarrow> path fin stp n p s = [p]"
  by (cases n) simp_all

lemma fuel5: "(5 :: nat) = Suc (Suc (Suc (Suc (Suc 0))))"
  by simp

lemma fuel6: "(6 :: nat) = Suc (Suc (Suc (Suc (Suc (Suc 0)))))"
  by simp

lemma sint_of_nat32: "k < 2 ^ 31 \<Longrightarrow> sint (of_nat k :: 32 word) = int k"
  by (simp add: signed_of_nat signed_take_bit_int_eq_self)

lemma of_nat32_nonzero: "0 < k \<Longrightarrow> k < 2 ^ 31 \<Longrightarrow> (of_nat k :: 32 word) \<noteq> 0"
  using sint_of_nat32 [of k] by auto

lemma repeat_call_add:
  "repeat_call call res (a + b) s =
     (case repeat_call call res a s of None \<Rightarrow> None | Some s' \<Rightarrow> repeat_call call res b s')"
  by (induction a arbitrary: s) (auto split: option.splits result.splits prod.splits bool.splits)

lemma rs_lock_again:
  "rs_owner s = g \<Longrightarrow> sint (rs_reenCount s) \<noteq> 2147483647 \<Longrightarrow>
   rs_call (Suc (Suc n)) g RS_lock_owner s =
     Some (RS_end (Returned None), s\<lparr>rs_reenCount := rs_reenCount s + 1\<rparr>) \<and>
   rs_path (Suc (Suc n)) g RS_lock_owner s = [RS_lock_owner, RS_lock_inc, RS_end (Returned None)]"
  by (simp add: rs_call_def rs_path_def run_final path_final)

lemma rss_lock_again:
  "rss_owner s = g \<Longrightarrow> 0 < sint (rss_reenCount s) \<Longrightarrow> sint (rss_reenCount s) \<noteq> 2147483647 \<Longrightarrow>
   rss_call (Suc (Suc (Suc n))) g RSS_lock_owner s =
     Some (RSS_end (Returned None), s\<lparr>rss_reenCount := rss_reenCount s + 1\<rparr>) \<and>
   rss_path (Suc (Suc (Suc n))) g RSS_lock_owner s =
     [RSS_lock_owner, RSS_lock_assert_pos, RSS_lock_inc, RSS_end (Returned None)]"
  by (simp add: rss_call_def rss_path_def run_final path_final)

lemma rs_lock_init:
  "g \<noteq> 0 \<Longrightarrow> rs_call 5 g RS_lock_owner ReentrantSpinMutex_init =
     Some (RS_end (Returned None), rs_held g (Suc 0))"
  unfolding fuel5 by (simp add: rs_call_def ReentrantSpinMutex_init_def rs_held_def)

lemma rs_lock_held:
  "Suc k < 2 ^ 31 \<Longrightarrow> rs_call 5 g RS_lock_owner (rs_held g k) =
     Some (RS_end (Returned None), rs_held g (Suc k))"
  using sint_of_nat32 [of k] unfolding fuel5 by (simp add: rs_call_def rs_held_def)

lemma rs_locks_held:
  "k + N < 2 ^ 31 \<Longrightarrow>
   repeat_call (rs_call 5 g RS_lock_owner) rs_result N (rs_held g k) = Some (rs_held g (k + N))"
proof (induction N arbitrary: k)
  case 0
  then show ?case by simp
next
  case (Suc N)
  from Suc.prems have "Suc k < 2 ^ 31" "Suc k + N < 2 ^ 31" by simp_all
  then show ?case using Suc.IH [of "Suc k"] by (simp add: rs_lock_held)
qed

lemma rs_locks:
  "g \<noteq> 0 \<Longrightarrow> 0 < N \<Longrightarrow> N < 2 ^ 31 \<Longrightarrow>
   repeat_call (rs_call 5 g RS_lock_owner) rs_result N ReentrantSpinMutex_init =
     Some (rs_held g N)"
  using rs_locks_held [of "Suc 0" "N - 1" g] by (cases N) (simp_all add: rs_lock_init)

lemma rs_unlock_held:
  "0 < k \<Longrightarrow> Suc k < 2 ^ 31 \<Longrightarrow>
   rs_call 5 g RS_unlock_assert (rs_held g (Suc k)) = Some (RS_end (Returned None), rs_held g k)"
  using sint_of_nat32 [of "Suc k"] of_nat32_nonzero [of k] unfolding fuel5
  by (simp add: rs_call_def rs_held_def)

lemma rs_unlock_last:
  "rs_call 5 g RS_unlock_assert (rs_held g (Suc 0)) =
     Some (RS_end (Returned None), ReentrantSpinMutex_init)"
  unfolding fuel5 by (simp add: rs_call_def rs_held_def ReentrantSpinMutex_init_def)

lemma rs_unlocks:
  "j < k \<Longrightarrow> k < 2 ^ 31 \<Longrightarrow>
   repeat_call (rs_call 5 g RS_unlock_assert) rs_result j (rs_held g k) =
     Some (rs_held g (k - j))"
proof (induction j arbitrary: k)
  case 0
  then show ?case by simp
next
  case (Suc j)
  then obtain k' where k: "k = Suc k'" by (cases k) auto
  with Suc.prems have "0 < k'" "Suc k' < 2 ^ 31" "j < k'" "k' < 2 ^ 31" by simp_all
  then show ?case using Suc.IH [of k'] by (simp add: k rs_unlock_held)
qed

lemma rs_unlocks_all:
  "0 < k \<Longrightarrow> k < 2 ^ 31 \<Longrightarrow>
   repeat_call (rs_call 5 g RS_unlock_assert) rs_result k (rs_held g k) =
     Some ReentrantSpinMutex_init"
  using repeat_call_add [of "rs_call 5 g RS_unlock_assert" rs_result "k - 1" "Suc 0" "rs_held g k"]
    rs_unlocks [of "k - 1" k g]
  by (simp add: rs_unlock_last)

lemma rss_lock_init:
  "g \<noteq> 0 \<Longrightarrow> rss_call 6 g RSS_lock_owner ReentrantSharedSpinMutex_init =
     Some (RSS_end (Returned None), rss_held g (Suc 0))"
  unfolding fuel6 by (simp add: rss_call_def ReentrantSharedSpinMutex_init_def rss_held_def)

lemma rss_lock_held:
  "0 < k \<Longrightarrow> Suc k < 2 ^ 31 \<Longrightarrow> rss_call 6 g RSS_lock_owner (rss_held g k) =
     Some (RSS_end (Returned None), rss_held g (Suc k))"
  using sint_of_nat32 [of k] unfolding fuel6 by (simp add: rss_call_def rss_held_def)

lemma rss_locks_held:
  "0 < k \<Longrightarrow> k + N < 2 ^ 31 \<Longrightarrow>
   repeat_call (rss_call 6 g RSS_lock_owner) rss_result N (rss_held g k) =
     Some (rss_held g (k + N))"
proof (induction N arbitrary: k)
  case 0
  then show ?case by simp
next
  case (Suc N)
  from Suc.prems have "Suc k < 2 ^ 31" "Suc k + N < 2 ^ 31" "0 < k" by simp_all
  then show ?case using Suc.IH [of "Suc k"] by (simp add: rss_lock_held)
qed

lemma rss_locks:
  "g \<noteq> 0 \<Longrightarrow> 0 < N \<Longrightarrow> N < 2 ^ 31 \<Longrightarrow>
   repeat_call (rss_call 6 g RSS_lock_owner) rss_result N ReentrantSharedSpinMutex_init =
     Some (rss_held g N)"
  using rss_locks_held [of "Suc 0" "N - 1" g] by (cases N) (simp_all add: rss_lock_init)

lemma rss_unlock_held:
  "0 < k \<Longrightarrow> Suc k < 2 ^ 31 \<Longrightarrow>
   rss_call 6 g RSS_unlock_assert (rss_held g (Suc k)) =
     Some (RSS_end (Returned None), rss_held g k)"
  using sint_of_nat32 [of "Suc k"] of_nat32_nonzero [of k] unfolding fuel6
  by (simp add: rss_call_def rss_held_def)

lemma rss_unlock_last:
  "rss_call 6 g RSS_unlock_assert (rss_held g (Suc 0)) =
     Some (RSS_end (Returned None), ReentrantSharedSpinMutex_init)"
  unfolding fuel6 by (simp add: rss_call_def rss_held_def ReentrantSharedSpinMutex_init_def)

lemma rss_unlocks:
  "j < k \<Longrightarrow> k < 2 ^ 31 \<Longrightarrow>
   repeat_call (rss_call 6 g RSS_unlock_assert) rss_result j (rss_held g k) =
     Some (rss_held g (k - j))"
proof (induction j arbitrary: k)
  case 0
  then show ?case by simp
next
  case (Suc j)
  then obtain k' where k: "k = Suc k'" by (cases k) auto
  with Suc.prems have "0 < k'" "Suc k' < 2 ^ 31" "j < k'" "k' < 2 ^ 31" by simp_all
  then show ?case using Suc.IH [of k'] by (simp add: k rss_unlock_held)
qed

lemma rss_unlocks_all:
  "0 < k \<Longrightarrow> k < 2 ^ 31 \<Longrightarrow>
   repeat_call (rss_call 6 g RSS_unlock_assert) rss_result k (rss_held g k) =
     Some ReentrantSharedSpinMutex_init"
  using repeat_call_add
      [of "rss_call 6 g RSS_unlock_assert" rss_result "k - 1" "Suc 0" "rss_held g k"]
    rss_unlocks [of "k - 1" k g]
  by (simp add: rss_unlock_last)

lemma rs_nesting:
  assumes "g \<noteq> 0" "0 < N" "N < 2 ^ 31" "j < N"
  shows "repeat_call (rs_call 5 g RS_lock_owner) rs_result N ReentrantSpinMutex_init =
           Some (rs_held g N) \<and>
         sint (rs_reentrant_count (rs_held g N)) = int N \<and>
         repeat_call (rs_call 5 g RS_unlock_assert) rs_result j (rs_held g N) =
           Some (rs_held g (N - j)) \<and>
         rs_is_locked (rs_held g (N - j)) \<and>
         repeat_call (rs_call 5 g RS_unlock_assert) rs_result N (rs_held g N) =
           Some ReentrantSpinMutex_init \<and>
         \<not> rs_is_locked ReentrantSpinMutex_init"
  using assms rs_locks [of g N] rs_unlocks [of j N g] rs_unlocks_all [of N g]
    sint_of_nat32 [of N]
  by (simp add: rs_reentrant_count_def rs_is_locked_def rs_held_def ReentrantSpinMutex_init_def)

lemma rss_nesting:
  assumes "g \<noteq> 0" "0 < N" "N < 2 ^ 31" "j < N"
  shows "repeat_call (rss_call 6 g RSS_lock_owner) rss_result N ReentrantSharedSpinMutex_init =
           Some (rss_held g N) \<and>
         sint (rss_reentrant_count (rss_held g N)) = int N \<and>
         repeat_call (rss_call 6 g RSS_unlock_assert) rss_result j (rss_held g N) =
           Some (rss_held g (N - j)) \<and>
         rss_writeFlag (rss_held g (N - j)) \<and>
         repeat_call (rss_call 6 g RSS_unlock_assert) rss_result N (rss_held g N) =
           Some ReentrantSharedSpinMutex_init \<and>
         \<not> rss_writeFlag ReentrantSharedSpinMutex_init"
  using assms rss_locks [of g N] rss_unlocks [of j N g] rss_unlocks_all [of N g]
    sint_of_nat32 [of N]
  by (simp add: rss_reentrant_count_def rss_held_def ReentrantSharedSpinMutex_init_def)

text \<open>
  Claim C3, as written, fails: \<open>2^31\<close> successive calls of \<^verbatim>\<open>lock()\<close> by one thread on a
  fresh \<^verbatim>\<open>ReentrantSpinMutex\<close> do not all return.  After \<open>2^31 - 1\<close> of them the
  \<^verbatim>\<open>int32_t\<close> reentry count is at its maximum and the next \<^verbatim>\<open>_reenCount++\<close> is undefined.
\<close>

theorem reentrant_lock_count_overflow:
  "repeat_call (rs_call 5 7 RS_lock_owner) rs_result 2147483647 ReentrantSpinMutex_init =
     Some (rs_held 7 2147483647) \<and>
   rs_call 5 7 RS_lock_owner (rs_held 7 2147483647) =
     Some (RS_end Undefined, rs_held 7 2147483647) \<and>
   repeat_call (rs_call 5 7 RS_lock_owner) rs_result 2147483648 ReentrantSpinMutex_init = None"
proof -
  have a: "repeat_call (rs_call 5 7 RS_lock_owner) rs_result 2147483647 ReentrantSpinMutex_init
      = Some (rs_held 7 2147483647)"
    by (rule rs_locks) simp_all
  have b: "rs_call 5 7 RS_lock_owner (rs_held 7 2147483647)
      = Some (RS_end Undefined, rs_held 7 2147483647)"
    unfolding fuel5 by (simp add: rs_call_def rs_held_def)
  have c: "repeat_call (rs_call 5 7 RS_lock_owner) rs_result 2147483648 ReentrantSpinMutex_init
      = None"
    using repeat_call_add
      [of "rs_call 5 7 RS_lock_owner" rs_result 2147483647 "Suc 0" ReentrantSpinMutex_init]
    by (simp add: a b)
  from a b c show ?thesis by (intro conjI)
qed

text \<open>
  Claim C3, amended.  In a reentrant lock whose owner is the caller and whose reentry count
  is below the largest \<^verbatim>\<open>int32_t\<close> (and positive, for the assert of
  \<^verbatim>\<open>ReentrantSharedSpinMutex\<close>), \<^verbatim>\<open>lock()\<close> returns after the owner test and the increment
  alone: the count is one more, nothing else has changed, and no label that exchanges or
  stores the flag is visited.  A thread with a nonzero \<^verbatim>\<open>g_threadId\<close> that calls \<^verbatim>\<open>lock()\<close>
  \<open>N\<close> times in succession on a fresh lock, \<open>0 < N < 2^31\<close>, returns from all of them;
  then \<^verbatim>\<open>reentrant_count()\<close> is \<open>N\<close>, after \<open>j < N\<close> calls of \<^verbatim>\<open>unlock()\<close> the lock is still
  held at depth \<open>N - j\<close>, and after \<open>N\<close> calls it is back in its fresh, released state.
\<close>

theorem reentrant_lock_nesting:
  "(rs_owner rs = g \<and> sint (rs_reenCount rs) \<noteq> 2147483647 \<longrightarrow>
      rs_call (Suc (Suc n)) g RS_lock_owner rs =
        Some (RS_end (Returned None), rs\<lparr>rs_reenCount := rs_reenCount rs + 1\<rparr>) \<and>
      rs_path (Suc (Suc n)) g RS_lock_owner rs =
        [RS_lock_owner, RS_lock_inc, RS_end (Returned None)]) \<and>
   (rss_owner rss = g \<and> 0 < sint (rss_reenCount rss) \<and> sint (rss_reenCount rss) \<noteq> 2147483647 \<longrightarrow>
      rss_call (Suc (Suc (Suc n))) g RSS_lock_owner rss =
        Some (RSS_end (Returned None), rss\<lparr>rss_reenCount := rss_reenCount rss + 1\<rparr>) \<and>
      rss_path (Suc (Suc (Suc n))) g RSS_lock_owner rss =
        [RSS_lock_owner, RSS_lock_assert_pos, RSS_lock_inc, RSS_end (Returned None)]) \<and>
   (g \<noteq> 0 \<and> 0 < N \<and> N < 2 ^ 31 \<and> j < N \<longrightarrow>
      (repeat_call (rs_call 5 g RS_lock_owner) rs_result N ReentrantSpinMutex_init =
         Some (rs_held g N) \<and>
       sint (rs_reentrant_count (rs_held g N)) = int N \<and>
       repeat_call (rs_call 5 g RS_unlock_assert) rs_result j (rs_held g N) =
         Some (rs_held g (N - j)) \<and>
       rs_is_locked (rs_held g (N - j)) \<and>
       repeat_call (rs_call 5 g RS_unlock_assert) rs_result N (rs_held g N) =
         Some ReentrantSpinMutex_init \<and>
       \<not> rs_is_locked ReentrantSpinMutex_init) \<and>
      (repeat_call (rss_call 6 g RSS_lock_owner) rss_result N ReentrantSharedSpinMutex_init =
         Some (rss_held g N) \<and>
       sint (rss_reentrant_count (rss_held g N)) = int N \<and>
       repeat_call (rss_call 6 g RSS_unlock_assert) rss_result j (rss_held g N) =
         Some (rss_held g (N - j)) \<and>
       rss_writeFlag (rss_held g (N - j)) \<and>
       repeat_call (rss_call 6 g RSS_unlock_assert) rss_result N (rss_held g N) =
         Some ReentrantSharedSpinMutex_init \<and>
       \<not> rss_writeFlag ReentrantSharedSpinMutex_init))"
  using rs_lock_again [of rs g n] rss_lock_again [of rss g n]
    rs_nesting [of g N j] rss_nesting [of g N j]
  by blast

theorem reentrant_lock_nesting_witness:
  "rs_call (Suc (Suc 0)) 7 RS_lock_owner \<lparr>rs_flag = True, rs_owner = 7, rs_reenCount = 1\<rparr>
     = Some (RS_end (Returned None), \<lparr>rs_flag = True, rs_owner = 7, rs_reenCount = 2\<rparr>) \<and>
   rss_call (Suc (Suc (Suc 0))) 7 RSS_lock_owner
       \<lparr>rss_readCount = 0, rss_writeFlag = True, rss_owner = 7, rss_reenCount = 1\<rparr>
     = Some (RSS_end (Returned None),
       \<lparr>rss_readCount = 0, rss_writeFlag = True, rss_owner = 7, rss_reenCount = 2\<rparr>) \<and>
   repeat_call (rs_call 5 7 RS_lock_owner) rs_result 3 ReentrantSpinMutex_init
     = Some (rs_held 7 3) \<and>
   sint (rs_reentrant_count (rs_held 7 3)) = 3 \<and>
   repeat_call (rs_call 5 7 RS_unlock_assert) rs_result 2 (rs_held 7 3) = Some (rs_held 7 1) \<and>
   repeat_call (rs_call 5 7 RS_unlock_assert) rs_result 3 (rs_held 7 3)
     = Some ReentrantSpinMutex_init \<and>
   repeat_call (rss_call 6 7 RSS_lock_owner) rss_result 3 ReentrantSharedSpinMutex_init
     = Some (rss_held 7 3) \<and>
   repeat_call (rss_call 6 7 RSS_unlock_assert) rss_result 2 (rss_held 7 3)
     = Some (rss_held 7 1) \<and>
   repeat_call (rss_call 6 7 RSS_unlock_assert) rss_result 3 (rss_held 7 3)
     = Some ReentrantSharedSpinMutex_init"
  using reentrant_lock_nesting [of "\<lparr>rs_flag = True, rs_owner = 7, rs_reenCount = 1\<rparr>" 7 0
      "\<lparr>rss_readCount = 0, rss_writeFlag = True, rss_owner = 7, rss_reenCount = 1\<rparr>" 3 2]
  by simp


subsection \<open>Thread identity 0\<close>

lemma digit_value_zero: "isdigit c \<Longrightarrow> ((of_char c :: int) - 48 = 0) = (c = CHR ''0'')"
proof -
  have "((of_char c :: int) = of_char (CHR ''0'')) = (c = CHR ''0'')" by (rule of_char_eq_iff)
  then show ?thesis by simp
qed

lemma digit_value_nonneg: "isdigit c \<Longrightarrow> 0 \<le> (of_char c :: int) - 48"
proof -
  assume "isdigit c"
  then have "(48 :: nat) \<le> of_char c" by (simp add: isdigit_def)
  then have "int 48 \<le> int (of_char c)" by (simp only: of_nat_le_iff)
  then show ?thesis by (simp add: of_nat_of_char)
qed

lemma digits_value_zero:
  "0 \<le> acc \<Longrightarrow> (digits_value acc s = 0) = (acc = 0 \<and> zero_digits s)"
proof (induction s arbitrary: acc)
  case Nil
  then show ?case by simp
next
  case (Cons c cs)
  show ?case
  proof (cases "isdigit c")
    case True
    from digit_value_nonneg [OF True] Cons.prems
    have nn: "0 \<le> acc * 10 + (of_char c - 48)" by simp
    have "(acc * 10 + (of_char c - 48) = 0) = (acc = 0 \<and> c = CHR ''0'')"
      using digit_value_nonneg [OF True] digit_value_zero [OF True] Cons.prems by auto
    with Cons.IH [OF nn] True show ?thesis by auto
  next
    case False
    then show ?thesis by simp
  qed
qed

lemma digits_value_zero_start: "(digits_value 0 s = 0) = zero_digits s"
  by (simp add: digits_value_zero)

lemma signed_value_zero: "(signed_value s = 0) = zero_signed s"
  by (cases s) (simp_all del: digits_value.simps zero_digits.simps add: digits_value_zero_start)

lemma word64_of_small_int:
  "- 2147483648 \<le> v \<Longrightarrow> v \<le> 2147483647 \<Longrightarrow> ((word_of_int v :: 64 word) = 0) = (v = 0)"
proof
  assume lo: "- 2147483648 \<le> v" and hi: "v \<le> 2147483647" and z: "(word_of_int v :: 64 word) = 0"
  from z have d: "(2 ^ 64 :: int) dvd v" by (simp add: word_of_int_eq_0_iff)
  show "v = 0"
  proof (rule ccontr)
    assume "v \<noteq> 0"
    from dvd_imp_le_int [OF this d] lo hi show False by simp
  qed
qed simp

lemma get_thread_id_zero_iff: "(get_thread_id str = Some 0) = reads_as_zero str"
  using signed_value_zero [of "dropWhile isspace str"]
    word64_of_small_int [of "signed_value (dropWhile isspace str)"]
  by (auto simp: get_thread_id_def atoi_def reads_as_zero_def Let_def)

lemma no_number_zero_signed: "\<not> starts_with_digit_or_sign s \<Longrightarrow> zero_signed s"
  by (cases s) simp_all

lemma no_number_reads_as_zero:
  "\<not> starts_with_digit_or_sign (dropWhile isspace str) \<Longrightarrow> reads_as_zero str"
  unfolding reads_as_zero_def by (rule no_number_zero_signed)

lemma rs_lock_identity_zero:
  "rs_owner s = 0 \<Longrightarrow>
   rs_path (Suc (Suc n)) 0 RS_lock_owner s =
     [RS_lock_owner, RS_lock_inc,
      RS_end (if sint (rs_reenCount s) = 2147483647 then Undefined else Returned None)] \<and>
   rs_call (Suc (Suc n)) 0 RS_lock_owner s =
     Some (RS_end (if sint (rs_reenCount s) = 2147483647 then Undefined else Returned None),
           if sint (rs_reenCount s) = 2147483647 then s
           else s\<lparr>rs_reenCount := rs_reenCount s + 1\<rparr>)"
  by (simp add: rs_call_def rs_path_def run_final path_final)

text \<open>
  Claim C9.  \<^verbatim>\<open>get_thread_id()\<close> returns 0, the value of \<^verbatim>\<open>_owner\<close> in a lock nobody holds
  (as in a fresh \<^verbatim>\<open>ReentrantSpinMutex\<close>), exactly for the texts of the thread id that \<^verbatim>\<open>atoi\<close>
  reads as 0: after the white space that \<^verbatim>\<open>atoi\<close> skips and an optional sign, the decimal
  digits at the head are all zeros, or there is none.  In particular it returns 0 for
  every text that does not start there with a decimal digit or a sign (a thread id is
  printed without leading white space, so there is the first character), and for the
  hexadecimal text \<^verbatim>\<open>0x...\<close>, whose only digit before the \<^verbatim>\<open>x\<close> is 0.  A thread whose
  \<^verbatim>\<open>g_threadId\<close> is 0 that calls \<^verbatim>\<open>ReentrantSpinMutex::lock()\<close> on an unlocked mutex (flag
  clear, owner 0) passes the owner test and goes to the increment of the reentry count: the
  exchange on the flag is never reached, the call returns with the reentry count one
  higher (at \<^verbatim>\<open>INT_MAX\<close> the increment is undefined) and the flag still clear.
\<close>

theorem thread_identity_zero:
  "(get_thread_id str = Some 0) = reads_as_zero str \<and>
   (\<not> starts_with_digit_or_sign (dropWhile isspace str) \<longrightarrow> get_thread_id str = Some 0) \<and>
   rs_owner ReentrantSpinMutex_init = 0 \<and>
   (\<not> rs_flag rs \<and> rs_owner rs = 0 \<longrightarrow>
      rs_path (Suc (Suc n)) 0 RS_lock_owner rs =
        [RS_lock_owner, RS_lock_inc,
         RS_end (if sint (rs_reenCount rs) = 2147483647 then Undefined else Returned None)] \<and>
      rs_call (Suc (Suc n)) 0 RS_lock_owner rs =
        Some (RS_end (if sint (rs_reenCount rs) = 2147483647 then Undefined else Returned None),
              if sint (rs_reenCount rs) = 2147483647 then rs
              else rs\<lparr>rs_reenCount := rs_reenCount rs + 1\<rparr>) \<and>
      \<not> rs_is_locked (rs\<lparr>rs_reenCount := rs_reenCount rs + 1\<rparr>))"
  using get_thread_id_zero_iff [of str] no_number_reads_as_zero [of str]
    rs_lock_identity_zero [of rs n]
  by (simp add: ReentrantSpinMutex_init_def rs_is_locked_def)

theorem thread_identity_zero_witness:
  "get_thread_id ''0x16f5c3000'' = Some 0 \<and>
   get_thread_id ''thread::id of a non-executing thread'' = Some 0 \<and>
   get_thread_id ''4231'' \<noteq> Some 0 \<and>
   rs_path (Suc (Suc 0)) 0 RS_lock_owner ReentrantSpinMutex_init =
     [RS_lock_owner, RS_lock_inc, RS_end (Returned None)] \<and>
   rs_call (Suc (Suc 0)) 0 RS_lock_owner ReentrantSpinMutex_init =
     Some (RS_end (Returned None), \<lparr>rs_flag = False, rs_owner = 0, rs_reenCount = 1\<rparr>)"
  using thread_identity_zero [of "''0x16f5c3000''" ReentrantSpinMutex_init 0]
    thread_identity_zero [of "''thread::id of a non-executing thread''" ReentrantSpinMutex_init 0]
    thread_identity_zero [of "''4231''" ReentrantSpinMutex_init 0]
  by (simp add: ReentrantSpinMutex_init_def reads_as_zero_def isdigit_def isspace_def)

subsection \<open>Reentry count and owner\<close>

text \<open>
  Claim C2 does not hold of the code.  A thread whose \<^verbatim>\<open>g_threadId\<close> is 0 calls \<^verbatim>\<open>lock()\<close>
  on a fresh \<^verbatim>\<open>ReentrantSpinMutex\<close>: the call returns, the owner is still the sentinel 0 and
  the reentry count is 1.
\<close>

theorem reentrant_count_owner_broken:
  "rs_count_owner ReentrantSpinMutex_init \<and>
   rs_call (Suc (Suc 0)) 0 RS_lock_owner ReentrantSpinMutex_init =
     Some (RS_end (Returned None), \<lparr>rs_flag = False, rs_owner = 0, rs_reenCount = 1\<rparr>) \<and>
   \<not> rs_count_owner \<lparr>rs_flag = False, rs_owner = 0, rs_reenCount = 1\<rparr>"
  by (simp add: rs_count_owner_def ReentrantSpinMutex_init_def rs_call_def)

subsection \<open>\<^verbatim>\<open>SharedSpinMutex::try_lock\<close>\<close>

lemma run_among_final: "fin p \<Longrightarrow> run_among fin stp es p s = Some (p, s)"
  by (cases es) simp_all

lemma ss_flag_same: "ss_writeFlag s \<Longrightarrow> s\<lparr>ss_writeFlag := True\<rparr> = s"
  by (cases s) simp

lemma ss_try_lock_among_steps:
  "ss_try_lock_among (ea # eb # ec # ed # es) g s =
     (if ss_readCount (ea s) \<noteq> 0 then Some (SS_end (Returned (Some False)), ea s)
      else if ss_writeFlag (eb (ea s)) then Some (SS_end (Returned (Some False)), eb (ea s))
      else if 0 < sint (ss_readCount (ec ((eb (ea s))\<lparr>ss_writeFlag := True\<rparr>)))
      then Some (SS_end (Returned (Some False)),
                 (ed (ec ((eb (ea s))\<lparr>ss_writeFlag := True\<rparr>)))\<lparr>ss_writeFlag := False\<rparr>)
      else Some (SS_end (Returned (Some True)),
                 (ed (ec ((eb (ea s))\<lparr>ss_writeFlag := True\<rparr>)))\<lparr>ss_owner := g\<rparr>))"
  by (simp add: ss_try_lock_among_def run_among_final ss_flag_same)

lemma ss_try_lock_alone:
  "ss_call (Suc (Suc (Suc (Suc n)))) g SS_try_count s =
     Some (if ss_readCount s = 0 \<and> \<not> ss_writeFlag s
           then (SS_end (Returned (Some True)), s\<lparr>ss_writeFlag := True, ss_owner := g\<rparr>)
           else (SS_end (Returned (Some False)), s))"
  by (simp add: ss_call_def run_final ss_flag_same)

text \<open>
  Claim C5, as written, fails in its last clause.  In the run \<open>try_lock_race\<close> thread 0's
  \<^verbatim>\<open>try_lock()\<close> fails (it is between calls again and holds nothing) and the lock ends with
  reader count 0; in the same run without thread 0's call, thread 1's \<^verbatim>\<open>try_lock_shared()\<close>
  succeeds and the lock ends with reader count 1.  The failing call had the write flag
  between its exchange and its store, and thread 1 saw it.
\<close>

theorem try_lock_failing_call_observed:
  "\<not> aborted (exec SharedSpinMutex_class (\<lambda>t. of_nat (Suc t)) try_lock_race
       (init_system SharedSpinMutex_class)) \<and>
   threads (exec SharedSpinMutex_class (\<lambda>t. of_nat (Suc t)) try_lock_race
       (init_system SharedSpinMutex_class)) 0 =
     \<lparr>th_pc = None, th_method = TryLock, th_excl = 0, th_shared = 0\<rparr> \<and>
   lock_state (exec SharedSpinMutex_class (\<lambda>t. of_nat (Suc t)) try_lock_race
       (init_system SharedSpinMutex_class)) =
     \<lparr>ss_readCount = 0, ss_writeFlag = False, ss_owner = 0\<rparr> \<and>
   lock_state (exec SharedSpinMutex_class (\<lambda>t. of_nat (Suc t)) (without_thread 0 try_lock_race)
       (init_system SharedSpinMutex_class)) =
     \<lparr>ss_readCount = 1, ss_writeFlag = False, ss_owner = 0\<rparr>"
  by (simp add: try_lock_race_def without_thread_def SharedSpinMutex_class_def init_system_def
      idle_thread_def SharedSpinMutex_init_def Let_def advance_def)

text \<open>
  Claim C5, amended.  \<^verbatim>\<open>SharedSpinMutex::try_lock()\<close> runs while the other threads act on
  the lock in any way before each of its steps (\<open>ea\<close> before the load of the reader count,
  \<open>eb\<close> before the exchange, \<open>ec\<close> before the second load, \<open>ed\<close> before the last write); \<open>a\<close>,
  \<open>b\<close>, \<open>c\<close> and \<open>d\<close> are the lock as the four steps find it.  The call always returns a
  boolean.  It returns true only if the reader count it loads is zero and the exchange
  finds the write flag clear (and the reader count it loads after the exchange is not
  positive); it then has set the flag and the owner.  If after claiming the flag it loads
  a reader count greater than zero, it stores false to the flag and returns false.  A
  failing call never writes the reader count or the owner: the lock is left as the other
  threads made it, with the flag as the exchange found it, or false after the store.  A
  failing call that runs with no step of another thread in between leaves the lock's state
  (write flag, reader count, owner) as it was.
\<close>

theorem try_lock_shared_spin_mutex:
  "let a = ea s; b = eb a; c = ec (b\<lparr>ss_writeFlag := True\<rparr>); d = ed c;
       r = ss_try_lock_among (ea # eb # ec # ed # es) g s
   in r = (if ss_readCount a \<noteq> 0 then Some (SS_end (Returned (Some False)), a)
           else if ss_writeFlag b then Some (SS_end (Returned (Some False)), b)
           else if 0 < sint (ss_readCount c)
           then Some (SS_end (Returned (Some False)), d\<lparr>ss_writeFlag := False\<rparr>)
           else Some (SS_end (Returned (Some True)), d\<lparr>ss_owner := g\<rparr>)) \<and>
      (r = Some (SS_end (Returned (Some True)), sa) \<longrightarrow>
         ss_readCount a = 0 \<and> \<not> ss_writeFlag b \<and> \<not> 0 < sint (ss_readCount c) \<and>
         sa = d\<lparr>ss_owner := g\<rparr>) \<and>
      (ss_readCount a = 0 \<and> \<not> ss_writeFlag b \<and> 0 < sint (ss_readCount c) \<longrightarrow>
         r = Some (SS_end (Returned (Some False)), d\<lparr>ss_writeFlag := False\<rparr>)) \<and>
      (r = Some (SS_end (Returned (Some False)), sb) \<longrightarrow>
         sb = a \<or> sb = b \<or> sb = d\<lparr>ss_writeFlag := False\<rparr>) \<and>
      ss_call (Suc (Suc (Suc (Suc n)))) g SS_try_count s =
        Some (if ss_readCount s = 0 \<and> \<not> ss_writeFlag s
              then (SS_end (Returned (Some True)), s\<lparr>ss_writeFlag := True, ss_owner := g\<rparr>)
              else (SS_end (Returned (Some False)), s))"
  unfolding Let_def ss_try_lock_among_steps ss_try_lock_alone
  by auto

theorem try_lock_shared_spin_mutex_witness:
  "ss_try_lock_among [\<lambda>s. s, \<lambda>s. s, \<lambda>s. s, \<lambda>s. s] 7 SharedSpinMutex_init =
     Some (SS_end (Returned (Some True)),
           \<lparr>ss_readCount = 0, ss_writeFlag = True, ss_owner = 7\<rparr>) \<and>
   ss_try_lock_among
     [\<lambda>s. s, \<lambda>s. s, \<lambda>s. s\<lparr>ss_readCount := ss_readCount s + 1\<rparr>, \<lambda>s. s] 7 SharedSpinMutex_init =
     Some (SS_end (Returned (Some False)),
           \<lparr>ss_readCount = 1, ss_writeFlag = False, ss_owner = 0\<rparr>) \<and>
   ss_try_lock_among
     [\<lambda>s. s, \<lambda>s. s\<lparr>ss_writeFlag := True\<rparr>, \<lambda>s. s, \<lambda>s. s] 7 SharedSpinMutex_init =
     Some (SS_end (Returned (Some False)),
           \<lparr>ss_readCount = 0, ss_writeFlag = True, ss_owner = 0\<rparr>) \<and>
   ss_call (Suc (Suc (Suc (Suc 0)))) 7 SS_try_count
       \<lparr>ss_readCount = 1, ss_writeFlag = False, ss_owner = 0\<rparr> =
     Some (SS_end (Returned (Some False)),
           \<lparr>ss_readCount = 1, ss_writeFlag = False, ss_owner = 0\<rparr>)"
  using try_lock_shared_spin_mutex [where ea = "\<lambda>s. s" and eb = "\<lambda>s. s" and ec = "\<lambda>s. s"
      and ed = "\<lambda>s. s" and es = "[]" and g = 7 and s = SharedSpinMutex_init and n = 0
      and sa = "\<lparr>ss_readCount = 0, ss_writeFlag = True, ss_owner = 7\<rparr>"
      and sb = "\<lparr>ss_readCount = 1, ss_writeFlag = False, ss_owner = 0\<rparr>"]
    try_lock_shared_spin_mutex [where ea = "\<lambda>s. s" and eb = "\<lambda>s. s"
      and ec = "\<lambda>s. s\<lparr>ss_readCount := ss_readCount s + 1\<rparr>"
      and ed = "\<lambda>s. s" and es = "[]" and g = 7 and s = SharedSpinMutex_init and n = 0
      and sa = "\<lparr>ss_readCount = 0, ss_writeFlag = True, ss_owner = 7\<rparr>"
      and sb = "\<lparr>ss_readCount = 1, ss_writeFlag = False, ss_owner = 0\<rparr>"]
    try_lock_shared_spin_mutex [where ea = "\<lambda>s. s" and eb = "\<lambda>s. s\<lparr>ss_writeFlag := True\<rparr>"
      and ec = "\<lambda>s. s" and ed = "\<lambda>s. s" and es = "[]" and g = 7 and s = SharedSpinMutex_init
      and n = 0
      and sa = "\<lparr>ss_readCount = 0, ss_writeFlag = True, ss_owner = 7\<rparr>"
      and sb = "\<lparr>ss_readCount = 0, ss_writeFlag = True, ss_owner = 0\<rparr>"]
    try_lock_shared_spin_mutex [where ea = "\<lambda>s. s" and eb = "\<lambda>s. s" and ec = "\<lambda>s. s"
      and ed = "\<lambda>s. s" and es = "[]" and g = 7
      and s = "\<lparr>ss_readCount = 1, ss_writeFlag = False, ss_owner = 0\<rparr>" and n = 0
      and sa = "\<lparr>ss_readCount = 0, ss_writeFlag = True, ss_owner = 7\<rparr>"
      and sb = "\<lparr>ss_readCount = 1, ss_writeFlag = False, ss_owner = 0\<rparr>"]
  by (simp add: Let_def SharedSpinMutex_init_def)

text \<open>\<^verbatim>\<open>ReentrantSharedSpinMutex::try_lock()\<close> called by a thread that is not the owner goes
  the same way after its owner test: a failing call that runs alone leaves the lock as it
  was, and in the race \<open>rss_try_lock_race\<close> the failing call of thread 0 makes the
  \<^verbatim>\<open>try_lock_shared()\<close> of thread 1 fail.\<close>

lemma rss_flag_same: "rss_writeFlag s \<Longrightarrow> s\<lparr>rss_writeFlag := True\<rparr> = s"
  by (cases s) simp

lemma rss_try_lock_alone:
  "rss_owner s \<noteq> g \<Longrightarrow>
   rss_call (Suc (Suc (Suc (Suc (Suc (Suc (Suc n))))))) g RSS_try_owner s =
     Some (if rss_readCount s = 0 \<and> \<not> rss_writeFlag s
           then (if rss_reenCount s = 0
                 then (RSS_end (Returned (Some True)),
                       s\<lparr>rss_writeFlag := True, rss_owner := g, rss_reenCount := 1\<rparr>)
                 else (RSS_end AssertFailed, s\<lparr>rss_writeFlag := True\<rparr>))
           else (RSS_end (Returned (Some False)), s))"
  by (simp add: rss_call_def run_final rss_flag_same)

lemma rss_try_lock_failing_call_observed:
  "\<not> aborted (exec ReentrantSharedSpinMutex_class (\<lambda>t. of_nat (Suc t)) rss_try_lock_race
       (init_system ReentrantSharedSpinMutex_class)) \<and>
   threads (exec ReentrantSharedSpinMutex_class (\<lambda>t. of_nat (Suc t)) rss_try_lock_race
       (init_system ReentrantSharedSpinMutex_class)) 0 =
     \<lparr>th_pc = None, th_method = TryLock, th_excl = 0, th_shared = 0\<rparr> \<and>
   lock_state (exec ReentrantSharedSpinMutex_class (\<lambda>t. of_nat (Suc t)) rss_try_lock_race
       (init_system ReentrantSharedSpinMutex_class)) =
     \<lparr>rss_readCount = 0, rss_writeFlag = False, rss_owner = 0, rss_reenCount = 0\<rparr> \<and>
   lock_state (exec ReentrantSharedSpinMutex_class (\<lambda>t. of_nat (Suc t))
       (without_thread 0 rss_try_lock_race) (init_system ReentrantSharedSpinMutex_class)) =
     \<lparr>rss_readCount = 1, rss_writeFlag = False, rss_owner = 0, rss_reenCount = 0\<rparr>"
  by (simp add: rss_try_lock_race_def without_thread_def ReentrantSharedSpinMutex_class_def
      init_system_def idle_thread_def ReentrantSharedSpinMutex_init_def Let_def advance_def)

subsection \<open>The shared side of the two reader/writer classes\<close>

text \<open>\<^verbatim>\<open>lock_shared\<close>, \<^verbatim>\<open>try_lock_shared\<close> and the \<^verbatim>\<open>fetch_sub\<close> of \<^verbatim>\<open>unlock_shared\<close> agree step
  by step in the two classes, on the fields they have in common; so do whole calls, for
  every amount of fuel.  \<^verbatim>\<open>unlock_shared\<close> agrees where the owner is 0.\<close>

lemma shared_label_final: "shared_label p = Some q \<Longrightarrow> ss_final q = rss_final p"
  by (cases p) auto

lemma shared_step_agree:
  "shared_label p = Some q \<Longrightarrow>
   shared_label (fst (ReentrantSharedSpinMutex_step g p s)) =
     Some (fst (SharedSpinMutex_step g q (shared_fields s))) \<and>
   shared_fields (snd (ReentrantSharedSpinMutex_step g p s)) =
     snd (SharedSpinMutex_step g q (shared_fields s))"
  by (cases p) (auto simp: shared_fields_def)

lemma shared_calls_agree:
  "shared_label p = Some q \<Longrightarrow>
   map_option (\<lambda>(p', s'). (shared_label p', shared_fields s')) (rss_call n g p s) =
   map_option (\<lambda>(q', t'). (Some q', t')) (ss_call n g q (shared_fields s))"
proof (induction n arbitrary: p q s)
  case 0
  then show ?case using shared_label_final [of p q] by (simp add: rss_call_def ss_call_def)
next
  case (Suc n)
  show ?case
  proof (cases "rss_final p")
    case True
    with Suc.prems show ?thesis
      using shared_label_final [of p q] by (simp add: rss_call_def ss_call_def)
  next
    case False
    with Suc.prems have nf: "\<not> ss_final q" using shared_label_final [of p q] by simp
    from shared_step_agree [OF Suc.prems, of g s]
    show ?thesis
      using Suc.IH [of "fst (ReentrantSharedSpinMutex_step g p s)"
          "fst (SharedSpinMutex_step g q (shared_fields s))"
          "snd (ReentrantSharedSpinMutex_step g p s)"] False nf
      by (simp add: rss_call_def ss_call_def case_prod_beta)
  qed
qed

lemma unlock_shared_agree_unowned:
  "rss_owner s = 0 \<Longrightarrow>
   ss_call (Suc (Suc n)) g SS_us_assert (shared_fields s) =
     Some (SS_end (Returned None), shared_fields (s\<lparr>rss_readCount := rss_readCount s - 1\<rparr>)) \<and>
   rss_call (Suc n) g RSS_us_sub s =
     Some (RSS_end (Returned None), s\<lparr>rss_readCount := rss_readCount s - 1\<rparr>)"
  by (simp add: ss_call_def rss_call_def shared_fields_def run_final)

text \<open>
  Claim C7 does not hold of the code.  A thread that holds the exclusive side (owner 7,
  flag set, no reader) calls \<^verbatim>\<open>unlock_shared()\<close>.  \<^verbatim>\<open>SharedSpinMutex\<close> fails
  \<^verbatim>\<open>assert(_owner == 0)\<close> and leaves the lock as it is; \<^verbatim>\<open>ReentrantSharedSpinMutex\<close> has no
  such assert, returns, and leaves the reader count at \<open>-1\<close>.
\<close>

theorem unlock_shared_assert_missing:
  "ss_call (Suc (Suc 0)) 7 SS_us_assert (shared_fields (rss_held 7 1)) =
     Some (SS_end AssertFailed, shared_fields (rss_held 7 1)) \<and>
   rss_call (Suc (Suc 0)) 7 RSS_us_sub (rss_held 7 1) =
     Some (RSS_end (Returned None), (rss_held 7 1)\<lparr>rss_readCount := - 1\<rparr>)"
  by (simp add: ss_call_def rss_call_def shared_fields_def rss_held_def run_final)


subsection \<open>The reader count under interleaving\<close>

text \<open>Replacing one thread changes a sum over the threads by that thread's share.\<close>

lemma sum_upd_thread:
  fixes F :: "'a \<Rightarrow> 'b::comm_monoid_add" and t N :: nat
  assumes "t < N"
  shows "(\<Sum>i<N. F ((f(t := v)) i)) + F (f t) = (\<Sum>i<N. F (f i)) + F v"
proof -
  have fin: "finite {..<N}" and mem: "t \<in> {..<N}" using assms by simp_all
  have a: "(\<Sum>i<N. F ((f(t := v)) i)) = F v + (\<Sum>i\<in>{..<N} - {t}. F ((f(t := v)) i))"
    using sum.remove [OF fin mem, of "\<lambda>i. F ((f(t := v)) i)"] by simp
  have b: "(\<Sum>i<N. F (f i)) = F (f t) + (\<Sum>i\<in>{..<N} - {t}. F (f i))"
    using sum.remove [OF fin mem, of "\<lambda>i. F (f i)"] by simp
  have c: "(\<Sum>i\<in>{..<N} - {t}. F ((f(t := v)) i)) = (\<Sum>i\<in>{..<N} - {t}. F (f i))"
    by (rule sum.cong) auto
  show ?thesis unfolding a b c by (simp only: ac_simps)
qed

lemma of_nat_pred32: "0 < n \<Longrightarrow> (of_nat (n - Suc 0) :: 32 word) + 1 = of_nat n"
  by (cases n) simp_all

lemma ss_step_local:
  assumes "thread_ok ss_method_of th" "th_pc th = Some p"
    "SharedSpinMutex_step g p s = (p', s')"
  shows "thread_ok ss_method_of (advance ss_result th p') \<and>
    ss_readCount s' + of_nat (outstanding ss_in_flight th) =
    ss_readCount s + of_nat (outstanding ss_in_flight (advance ss_result th p'))"
  using assms
  by (cases p) (auto simp: thread_ok_def advance_def outstanding_def of_nat_pred32 split: if_splits)

lemma rss_step_local:
  assumes "thread_ok rss_method_of th" "th_pc th = Some p"
    "ReentrantSharedSpinMutex_step g p s = (p', s')"
  shows "thread_ok rss_method_of (advance rss_result th p') \<and>
    rss_readCount s' + of_nat (outstanding rss_in_flight th) =
    rss_readCount s + of_nat (outstanding rss_in_flight (advance rss_result th p'))"
  using assms
  by (cases p) (auto simp: thread_ok_def advance_def outstanding_def of_nat_pred32 split: if_splits)

lemma ss_entry_ok: "ss_entry m = Some p \<Longrightarrow> ss_method_of p = Some m \<and> \<not> ss_in_flight p"
  by (cases m) auto

lemma rss_entry_ok: "rss_entry m = Some p \<Longrightarrow> rss_method_of p = Some m \<and> \<not> rss_in_flight p"
  by (cases m) auto

lemma fire_readers_inv:
  assumes local: "\<And>th p g s p' s'. thread_ok mo th \<Longrightarrow> th_pc th = Some p \<Longrightarrow>
      step_of c g p s = (p', s') \<Longrightarrow>
      thread_ok mo (advance (result_at c) th p') \<and>
      rc s' + of_nat (outstanding fl th) = rc s + of_nat (outstanding fl (advance (result_at c) th p'))"
    and entry: "\<And>m p. entry_of c m = Some p \<Longrightarrow> mo p = Some m \<and> \<not> fl p"
    and inv: "readers_inv fl mo rc N sys"
    and lt: "thread_of e < N"
  shows "readers_inv fl mo rc N (fire c ident e sys)"
proof (cases e)
  case (Call t m)
  show ?thesis
  proof (cases "aborted sys \<or> th_pc (threads sys t) \<noteq> None \<or> entry_of c m = None
      \<or> \<not> may_call m (threads sys t)")
    case True
    then show ?thesis using inv by (auto simp: Call Let_def)
  next
    case False
    then obtain p where p: "entry_of c m = Some p" by auto
    let ?th = "threads sys t"
    let ?th' = "?th\<lparr>th_pc := Some p, th_method := m\<rparr>"
    from False have idle: "th_pc ?th = None" and may: "may_call m ?th" by auto
    have fired: "fire c ident e sys = sys\<lparr>threads := (threads sys)(t := ?th')\<rparr>"
      using False p by (simp add: Call Let_def)
    have ok: "thread_ok mo ?th'"
      using entry [OF p] may by (cases m) (auto simp: thread_ok_def)
    have same: "outstanding fl ?th' = outstanding fl ?th"
      using entry [OF p] idle by (simp add: outstanding_def)
    have "t < N" using lt Call by simp
    from sum_upd_thread [OF this, of "\<lambda>th. of_nat (outstanding fl th) :: 32 word" "threads sys" ?th']
    have "(\<Sum>i<N. of_nat (outstanding fl (((threads sys)(t := ?th')) i)) :: 32 word)
        = (\<Sum>i<N. of_nat (outstanding fl (threads sys i)))"
      by (simp add: same)
    then show ?thesis using inv ok unfolding fired readers_inv_def by (simp del: fun_upd_apply) (simp)
  qed
next
  case (Step t)
  show ?thesis
  proof (cases "aborted sys \<or> th_pc (threads sys t) = None")
    case True
    then show ?thesis using inv by (auto simp: Step Let_def)
  next
    case False
    then obtain p where p: "th_pc (threads sys t) = Some p" by auto
    let ?th = "threads sys t"
    obtain p' s' where st: "step_of c (ident t) p (lock_state sys) = (p', s')"
      by (cases "step_of c (ident t) p (lock_state sys)") auto
    let ?th' = "advance (result_at c) ?th p'"
    have fired: "fire c ident e sys = sys\<lparr>threads := (threads sys)(t := ?th'), lock_state := s',
        aborted := (case result_at c p' of None \<Rightarrow> False | Some r \<Rightarrow> \<not> is_returned r)\<rparr>"
      using False p st by (simp add: Step Let_def)
    from inv have okt: "thread_ok mo ?th" by (simp add: readers_inv_def)
    from local [OF okt p st] have ok': "thread_ok mo ?th'"
      and rc: "rc s' + of_nat (outstanding fl ?th) = rc (lock_state sys) + of_nat (outstanding fl ?th')"
      by simp_all
    have "t < N" using lt Step by simp
    from sum_upd_thread [OF this, of "\<lambda>th. of_nat (outstanding fl th) :: 32 word" "threads sys" ?th']
    have sum: "(\<Sum>i<N. of_nat (outstanding fl (((threads sys)(t := ?th')) i)) :: 32 word)
          + of_nat (outstanding fl ?th)
        = (\<Sum>i<N. of_nat (outstanding fl (threads sys i))) + of_nat (outstanding fl ?th')" .
    from inv have "rc (lock_state sys) = (\<Sum>t<N. of_nat (outstanding fl (threads sys t)))"
      by (simp add: readers_inv_def)
    with rc sum have "rc s' + of_nat (outstanding fl ?th)
        = (\<Sum>i<N. of_nat (outstanding fl (((threads sys)(t := ?th')) i)) :: 32 word)
          + of_nat (outstanding fl ?th)" by simp
    then have "rc s' = (\<Sum>i<N. of_nat (outstanding fl (((threads sys)(t := ?th')) i)) :: 32 word)"
      by (simp only: add_right_cancel)
    then show ?thesis using inv ok' unfolding fired readers_inv_def by (simp del: fun_upd_apply) simp
  qed
qed

lemma exec_readers_inv:
  assumes local: "\<And>th p g s p' s'. thread_ok mo th \<Longrightarrow> th_pc th = Some p \<Longrightarrow>
      step_of c g p s = (p', s') \<Longrightarrow>
      thread_ok mo (advance (result_at c) th p') \<and>
      rc s' + of_nat (outstanding fl th) = rc s + of_nat (outstanding fl (advance (result_at c) th p'))"
    and entry: "\<And>m p. entry_of c m = Some p \<Longrightarrow> mo p = Some m \<and> \<not> fl p"
  shows "readers_inv fl mo rc N sys \<Longrightarrow> \<forall>e\<in>set evs. thread_of e < N \<Longrightarrow>
    readers_inv fl mo rc N (exec c ident evs sys)"
proof (induction evs arbitrary: sys)
  case Nil
  then show ?case by simp
next
  case (Cons e evs)
  from Cons.prems have "thread_of e < N" by simp
  have "readers_inv fl mo rc N (fire c ident e sys)"
    by (rule fire_readers_inv [OF local entry Cons.prems(1) \<open>thread_of e < N\<close>])
  then show ?case using Cons.IH Cons.prems(2) by simp
qed

lemma init_readers_inv:
  "rc (init_state c) = 0 \<Longrightarrow> readers_inv fl mo rc N (init_system c)"
  by (simp add: readers_inv_def init_system_def idle_thread_def thread_ok_def outstanding_def)

lemma readers_inv_count:
  assumes "readers_inv fl mo rc N sys"
  shows "rc (lock_state sys) = of_nat (outstanding_total fl sys N)"
  using assms by (simp add: readers_inv_def outstanding_total_def)

lemma ss_reader_count:
  assumes "\<forall>e\<in>set evs. thread_of e < N"
  shows "ss_readCount (lock_state (exec SharedSpinMutex_class ident evs (init_system SharedSpinMutex_class)))
     = of_nat (outstanding_total ss_in_flight
         (exec SharedSpinMutex_class ident evs (init_system SharedSpinMutex_class)) N)"
proof -
  have "readers_inv ss_in_flight ss_method_of ss_readCount N
      (exec SharedSpinMutex_class ident evs (init_system SharedSpinMutex_class))"
  proof (rule exec_readers_inv [OF _ _ _ assms])
    show "readers_inv ss_in_flight ss_method_of ss_readCount N (init_system SharedSpinMutex_class)"
      by (rule init_readers_inv) (simp add: SharedSpinMutex_class_def SharedSpinMutex_init_def)
  next
    fix th p g s p' s'
    assume "thread_ok ss_method_of th" "th_pc th = Some p"
      "step_of SharedSpinMutex_class g p s = (p', s')"
    then show "thread_ok ss_method_of (advance (result_at SharedSpinMutex_class) th p') \<and>
      ss_readCount s' + of_nat (outstanding ss_in_flight th) =
      ss_readCount s + of_nat (outstanding ss_in_flight (advance (result_at SharedSpinMutex_class) th p'))"
      using ss_step_local [of th p g s p' s'] by (simp add: SharedSpinMutex_class_def)
  next
    fix m p assume "entry_of SharedSpinMutex_class m = Some p"
    then show "ss_method_of p = Some m \<and> \<not> ss_in_flight p"
      using ss_entry_ok [of m p] by (simp add: SharedSpinMutex_class_def)
  qed
  then show ?thesis by (rule readers_inv_count)
qed

lemma rss_reader_count:
  assumes "\<forall>e\<in>set evs. thread_of e < N"
  shows "rss_readCount (lock_state (exec ReentrantSharedSpinMutex_class ident evs
        (init_system ReentrantSharedSpinMutex_class)))
     = of_nat (outstanding_total rss_in_flight
         (exec ReentrantSharedSpinMutex_class ident evs
           (init_system ReentrantSharedSpinMutex_class)) N)"
proof -
  have "readers_inv rss_in_flight rss_method_of rss_readCount N
      (exec ReentrantSharedSpinMutex_class ident evs (init_system ReentrantSharedSpinMutex_class))"
  proof (rule exec_readers_inv [OF _ _ _ assms])
    show "readers_inv rss_in_flight rss_method_of rss_readCount N
        (init_system ReentrantSharedSpinMutex_class)"
      by (rule init_readers_inv)
        (simp add: ReentrantSharedSpinMutex_class_def ReentrantSharedSpinMutex_init_def)
  next
    fix th p g s p' s'
    assume "thread_ok rss_method_of th" "th_pc th = Some p"
      "step_of ReentrantSharedSpinMutex_class g p s = (p', s')"
    then show "thread_ok rss_method_of (advance (result_at ReentrantSharedSpinMutex_class) th p') \<and>
      rss_readCount s' + of_nat (outstanding rss_in_flight th) =
      rss_readCount s + of_nat (outstanding rss_in_flight
        (advance (result_at ReentrantSharedSpinMutex_class) th p'))"
      using rss_step_local [of th p g s p' s'] by (simp add: ReentrantSharedSpinMutex_class_def)
  next
    fix m p assume "entry_of ReentrantSharedSpinMutex_class m = Some p"
    then show "rss_method_of p = Some m \<and> \<not> rss_in_flight p"
      using rss_entry_ok [of m p] by (simp add: ReentrantSharedSpinMutex_class_def)
  qed
  then show ?thesis by (rule readers_inv_count)
qed


lemma exec_append: "exec c ident (xs @ ys) sys = exec c ident ys (exec c ident xs sys)"
  by (induction xs arbitrary: sys) simp_all

lemma ss_round:
  "ss_readers_only sys n \<Longrightarrow>
   ss_readers_only (exec SharedSpinMutex_class ident lock_shared_round sys) (Suc n)"
  by (simp add: ss_readers_only_def lock_shared_round_def SharedSpinMutex_class_def Let_def
      advance_def)

lemma ss_rounds:
  "ss_readers_only sys n \<Longrightarrow>
   ss_readers_only (exec SharedSpinMutex_class ident (concat (replicate k lock_shared_round)) sys)
     (n + k)"
proof (induction k arbitrary: sys n)
  case 0
  then show ?case by simp
next
  case (Suc k)
  from Suc.IH [OF ss_round [OF Suc.prems, of ident]]
  show ?case by (simp add: exec_append)
qed


text \<open>
  Claim C6, as written, fails: thread 0 calls \<^verbatim>\<open>lock_shared()\<close> \<open>2^31\<close> times on a fresh
  \<^verbatim>\<open>SharedSpinMutex\<close>, each call running to its return, and no other thread does anything.
  Every \<^verbatim>\<open>fetch_add\<close> wraps in \<^verbatim>\<open>int32_t\<close>, and the reader count is then negative.
\<close>

theorem reader_count_wraps:
  "sint (ss_readCount (lock_state (exec SharedSpinMutex_class (\<lambda>t. 0)
      (concat (replicate 2147483648 lock_shared_round)) (init_system SharedSpinMutex_class)))) < 0"
proof -
  have "ss_readers_only (init_system SharedSpinMutex_class) 0"
    by (simp add: ss_readers_only_def init_system_def idle_thread_def SharedSpinMutex_class_def
        SharedSpinMutex_init_def)
  from ss_rounds [OF this, of "\<lambda>t. 0" 2147483648]
  have "ss_readCount (lock_state (exec SharedSpinMutex_class (\<lambda>t. 0)
      (concat (replicate 2147483648 lock_shared_round)) (init_system SharedSpinMutex_class)))
      = of_nat 2147483648"
    by (simp add: ss_readers_only_def)
  then show ?thesis by simp
qed

text \<open>
  Claim C6, amended.  Threads below \<open>N\<close> call any methods of a fresh \<^verbatim>\<open>SharedSpinMutex\<close> or
  \<^verbatim>\<open>ReentrantSharedSpinMutex\<close> and their steps interleave in any order, \<^verbatim>\<open>unlock_shared()\<close>
  being called only by a thread that has a shared hold.  In every state reached the reader
  count is, in 32 bits, the number of outstanding increments: the shared holds of all
  threads plus the calls of \<^verbatim>\<open>lock_shared\<close> and \<^verbatim>\<open>try_lock_shared\<close> that are between their
  \<^verbatim>\<open>fetch_add\<close> and their return or \<^verbatim>\<open>fetch_sub\<close>.  While that number is below \<open>2^31\<close> the
  reader count is that number, and so is not negative.
\<close>

theorem reader_count_outstanding:
  "(\<forall>e\<in>set evs. thread_of e < N) \<longrightarrow>
   (let sys = exec SharedSpinMutex_class ident evs (init_system SharedSpinMutex_class);
        k = outstanding_total ss_in_flight sys N
    in ss_readCount (lock_state sys) = of_nat k \<and>
       (k < 2 ^ 31 \<longrightarrow> sint (ss_readCount (lock_state sys)) = int k \<and>
          0 \<le> sint (ss_readCount (lock_state sys)))) \<and>
   (let sys = exec ReentrantSharedSpinMutex_class ident evs
                (init_system ReentrantSharedSpinMutex_class);
        k = outstanding_total rss_in_flight sys N
    in rss_readCount (lock_state sys) = of_nat k \<and>
       (k < 2 ^ 31 \<longrightarrow> sint (rss_readCount (lock_state sys)) = int k \<and>
          0 \<le> sint (rss_readCount (lock_state sys))))"
  using ss_reader_count [of evs N ident] rss_reader_count [of evs N ident]
  by (simp add: Let_def sint_of_nat32)

theorem reader_count_outstanding_witness:
  "outstanding_total ss_in_flight (exec SharedSpinMutex_class (\<lambda>t. of_nat t + 1)
     [Call 0 LockShared, Step 0, Step 0, Call 1 TryLockShared, Step 1, Step 1, Call 2 LockShared, Step 2,
        Call 0 UnlockShared, Step 0, Step 0]
     (init_system SharedSpinMutex_class)) (Suc (Suc (Suc 0))) = 2 \<and>
   sint (ss_readCount (lock_state (exec SharedSpinMutex_class (\<lambda>t. of_nat t + 1)
     [Call 0 LockShared, Step 0, Step 0, Call 1 TryLockShared, Step 1, Step 1, Call 2 LockShared, Step 2,
        Call 0 UnlockShared, Step 0, Step 0]
     (init_system SharedSpinMutex_class)))) = 2 \<and>
   outstanding_total rss_in_flight (exec ReentrantSharedSpinMutex_class (\<lambda>t. of_nat t + 1)
     [Call 0 LockShared, Step 0, Step 0, Call 1 TryLockShared, Step 1, Step 1, Call 2 LockShared, Step 2,
        Call 0 UnlockShared, Step 0, Step 0]
     (init_system ReentrantSharedSpinMutex_class)) (Suc (Suc (Suc 0))) = 2 \<and>
   sint (rss_readCount (lock_state (exec ReentrantSharedSpinMutex_class (\<lambda>t. of_nat t + 1)
     [Call 0 LockShared, Step 0, Step 0, Call 1 TryLockShared, Step 1, Step 1, Call 2 LockShared, Step 2,
        Call 0 UnlockShared, Step 0, Step 0]
     (init_system ReentrantSharedSpinMutex_class)))) = 2"
  using reader_count_outstanding [of
     "[Call 0 LockShared, Step 0, Step 0, Call 1 TryLockShared, Step 1, Step 1, Call 2 LockShared, Step 2,
        Call 0 UnlockShared, Step 0, Step 0]" "Suc (Suc (Suc 0))" "\<lambda>t. of_nat t + 1"]
  by (simp add: SharedSpinMutex_class_def ReentrantSharedSpinMutex_class_def init_system_def
      idle_thread_def SharedSpinMutex_init_def ReentrantSharedSpinMutex_init_def Let_def advance_def
      outstanding_total_def outstanding_def lessThan_Suc)

subsection \<open>Mutual exclusion\<close>

text \<open>\<^verbatim>\<open>SpinMutex\<close> and \<^verbatim>\<open>SharedSpinMutex\<close>: whatever the thread identities and the
  interleaving, at most one thread is inside an exclusive critical section.\<close>

lemma sm_step_flag:
  assumes "excl_ok sm_method_of sm_has_flag th" "th_pc th = Some p"
    "holds_flag sm_has_flag th \<longrightarrow> sm_flag s"
    "SpinMutex_step g p s = (p', s')"
  shows "excl_ok sm_method_of sm_has_flag (advance sm_result th p') \<and>
    (if holds_flag sm_has_flag th then holds_flag sm_has_flag (advance sm_result th p') = sm_flag s'
     else (holds_flag sm_has_flag (advance sm_result th p') \<and> \<not> sm_flag s \<and> sm_flag s') \<or>
          (\<not> holds_flag sm_has_flag (advance sm_result th p') \<and> sm_flag s' = sm_flag s))"
  using assms
  by (cases p) (auto simp: excl_ok_def holds_flag_def advance_def split: if_splits)

lemma ss_step_flag:
  assumes "excl_ok ss_method_of ss_has_flag th" "th_pc th = Some p"
    "holds_flag ss_has_flag th \<longrightarrow> ss_writeFlag s"
    "SharedSpinMutex_step g p s = (p', s')"
  shows "excl_ok ss_method_of ss_has_flag (advance ss_result th p') \<and>
    (if holds_flag ss_has_flag th then holds_flag ss_has_flag (advance ss_result th p') = ss_writeFlag s'
     else (holds_flag ss_has_flag (advance ss_result th p') \<and> \<not> ss_writeFlag s \<and> ss_writeFlag s') \<or>
          (\<not> holds_flag ss_has_flag (advance ss_result th p') \<and> ss_writeFlag s' = ss_writeFlag s))"
  using assms
  by (cases p) (auto simp: excl_ok_def holds_flag_def advance_def split: if_splits)

lemma fire_mutex_inv:
  assumes local: "\<And>th p g s p' s'. excl_ok mo hl th \<Longrightarrow> th_pc th = Some p \<Longrightarrow>
      (holds_flag hl th \<longrightarrow> flag s) \<Longrightarrow> step_of c g p s = (p', s') \<Longrightarrow>
      excl_ok mo hl (advance (result_at c) th p') \<and>
      (if holds_flag hl th then holds_flag hl (advance (result_at c) th p') = flag s'
       else (holds_flag hl (advance (result_at c) th p') \<and> \<not> flag s \<and> flag s') \<or>
            (\<not> holds_flag hl (advance (result_at c) th p') \<and> flag s' = flag s))"
    and entry: "\<And>m p. entry_of c m = Some p \<Longrightarrow> mo p = Some m \<and> \<not> hl p"
    and inv: "mutex_inv mo hl flag sys"
  shows "mutex_inv mo hl flag (fire c ident e sys)"
proof (cases e)
  case (Call t m)
  show ?thesis
  proof (cases "aborted sys \<or> th_pc (threads sys t) \<noteq> None \<or> entry_of c m = None
      \<or> \<not> may_call m (threads sys t)")
    case True
    then show ?thesis using inv by (auto simp: Call Let_def)
  next
    case False
    then obtain p where p: "entry_of c m = Some p" by auto
    let ?th = "threads sys t"
    let ?th' = "?th\<lparr>th_pc := Some p, th_method := m\<rparr>"
    from False have idle: "th_pc ?th = None" and may: "may_call m ?th" by auto
    have fired: "fire c ident e sys = sys\<lparr>threads := (threads sys)(t := ?th')\<rparr>"
      using False p by (simp add: Call Let_def)
    from inv have okt: "excl_ok mo hl ?th" by (simp add: mutex_inv_def)
    have ok: "excl_ok mo hl ?th'"
      using entry [OF p] may okt by (cases m) (auto simp: excl_ok_def)
    have same: "holds_flag hl ?th' = holds_flag hl ?th"
      using entry [OF p] idle by (simp add: holds_flag_def)
    have each: "\<And>u. holds_flag hl (((threads sys)(t := ?th')) u) = holds_flag hl (threads sys u)"
      using same by simp
    have okall: "\<And>u. excl_ok mo hl (((threads sys)(t := ?th')) u)"
      using ok inv by (simp add: mutex_inv_def)
    show ?thesis
      unfolding fired mutex_inv_def
      using inv okall each unfolding mutex_inv_def
      by (simp del: fun_upd_apply)
  qed
next
  case (Step t)
  show ?thesis
  proof (cases "aborted sys \<or> th_pc (threads sys t) = None")
    case True
    then show ?thesis using inv by (auto simp: Step Let_def)
  next
    case False
    then obtain p where p: "th_pc (threads sys t) = Some p" by auto
    let ?th = "threads sys t"
    let ?s = "lock_state sys"
    obtain p' s' where st: "step_of c (ident t) p ?s = (p', s')"
      by (cases "step_of c (ident t) p ?s") auto
    let ?th' = "advance (result_at c) ?th p'"
    let ?thr = "(threads sys)(t := ?th')"
    have fired: "fire c ident e sys = sys\<lparr>threads := ?thr, lock_state := s',
        aborted := (case result_at c p' of None \<Rightarrow> False | Some r \<Rightarrow> \<not> is_returned r)\<rparr>"
      using False p st by (simp add: Step Let_def)
    from inv have okt: "excl_ok mo hl ?th"
      and hf: "\<And>u. holds_flag hl (threads sys u) \<Longrightarrow> flag ?s"
      and fh: "flag ?s \<Longrightarrow> \<exists>u. holds_flag hl (threads sys u)"
      and uniq: "\<And>u v. holds_flag hl (threads sys u) \<Longrightarrow> holds_flag hl (threads sys v) \<Longrightarrow> u = v"
      and okall: "\<And>u. excl_ok mo hl (threads sys u)"
      by (auto simp: mutex_inv_def)
    have hft: "holds_flag hl ?th \<longrightarrow> flag ?s" using hf by blast
    from local [OF okt p hft st]
    have ok': "excl_ok mo hl ?th'"
      and eff: "if holds_flag hl ?th then holds_flag hl ?th' = flag s'
        else (holds_flag hl ?th' \<and> \<not> flag ?s \<and> flag s') \<or>
             (\<not> holds_flag hl ?th' \<and> flag s' = flag ?s)"
      by simp_all
    have others: "\<And>u. u \<noteq> t \<Longrightarrow> ?thr u = threads sys u" by simp
    have self: "?thr t = ?th'" by simp
    have a: "\<forall>u. excl_ok mo hl (?thr u)" using ok' okall by simp
    have b: "\<forall>u. holds_flag hl (?thr u) \<longrightarrow> flag s'"
    proof (intro allI impI)
      fix u assume h: "holds_flag hl (?thr u)"
      show "flag s'"
      proof (cases "u = t")
        case True
        with h have "holds_flag hl ?th'" by simp
        with eff show ?thesis by (auto split: if_splits)
      next
        case False
        with h have hu: "holds_flag hl (threads sys u)" by simp
        then have fs: "flag ?s" by (rule hf)
        from uniq [OF hu] False have "\<not> holds_flag hl ?th" by blast
        with eff fs show ?thesis by auto
      qed
    qed
    have c: "flag s' \<longrightarrow> (\<exists>u. holds_flag hl (?thr u))"
    proof
      assume fs': "flag s'"
      show "\<exists>u. holds_flag hl (?thr u)"
      proof (cases "holds_flag hl ?th'")
        case True
        then have "holds_flag hl (?thr t)" by simp
        then show ?thesis by blast
      next
        case False
        with eff fs' have nh: "\<not> holds_flag hl ?th" and fs: "flag ?s" by (auto split: if_splits)
        from fh [OF fs] obtain u where hu: "holds_flag hl (threads sys u)" by blast
        with nh have "u \<noteq> t" by auto
        with hu have "holds_flag hl (?thr u)" by simp
        then show ?thesis by blast
      qed
    qed
    have d: "\<forall>u v. holds_flag hl (?thr u) \<and> holds_flag hl (?thr v) \<longrightarrow> u = v"
    proof (intro allI impI, elim conjE)
      fix u v assume hu: "holds_flag hl (?thr u)" and hv: "holds_flag hl (?thr v)"
      have key: "\<And>w. w \<noteq> t \<Longrightarrow> holds_flag hl (threads sys w) \<Longrightarrow> \<not> holds_flag hl ?th'"
      proof -
        fix w assume wt: "w \<noteq> t" and hw: "holds_flag hl (threads sys w)"
        from uniq [OF hw] wt have nh: "\<not> holds_flag hl ?th" by blast
        from hf [OF hw] have "flag ?s" .
        with eff nh show "\<not> holds_flag hl ?th'" by auto
      qed
      show "u = v"
      proof (cases "u = t")
        case ut: True
        show ?thesis
        proof (cases "v = t")
          case True with ut show ?thesis by simp
        next
          case False
          with hv have "holds_flag hl (threads sys v)" by simp
          from key [OF False this] hu ut show ?thesis by simp
        qed
      next
        case ut: False
        with hu have hu': "holds_flag hl (threads sys u)" by simp
        show ?thesis
        proof (cases "v = t")
          case True
          from key [OF ut hu'] hv True show ?thesis by simp
        next
          case False
          with hv have "holds_flag hl (threads sys v)" by simp
          with hu' show ?thesis by (rule uniq)
        qed
      qed
    qed
    show ?thesis unfolding fired mutex_inv_def using a b c d by (simp del: fun_upd_apply)
  qed
qed

lemma exec_mutex_inv:
  assumes local: "\<And>th p g s p' s'. excl_ok mo hl th \<Longrightarrow> th_pc th = Some p \<Longrightarrow>
      (holds_flag hl th \<longrightarrow> flag s) \<Longrightarrow> step_of c g p s = (p', s') \<Longrightarrow>
      excl_ok mo hl (advance (result_at c) th p') \<and>
      (if holds_flag hl th then holds_flag hl (advance (result_at c) th p') = flag s'
       else (holds_flag hl (advance (result_at c) th p') \<and> \<not> flag s \<and> flag s') \<or>
            (\<not> holds_flag hl (advance (result_at c) th p') \<and> flag s' = flag s))"
    and entry: "\<And>m p. entry_of c m = Some p \<Longrightarrow> mo p = Some m \<and> \<not> hl p"
  shows "mutex_inv mo hl flag sys \<Longrightarrow> mutex_inv mo hl flag (exec c ident evs sys)"
proof (induction evs arbitrary: sys)
  case Nil
  then show ?case by simp
next
  case (Cons e evs)
  have "mutex_inv mo hl flag (fire c ident e sys)"
    by (rule fire_mutex_inv [OF local entry Cons.prems])
  then show ?case using Cons.IH by simp
qed

lemma init_mutex_inv: "\<not> flag (init_state c) \<Longrightarrow> mutex_inv mo hl flag (init_system c)"
  by (simp add: mutex_inv_def init_system_def idle_thread_def excl_ok_def holds_flag_def)

lemma mutex_inv_exclusion:
  assumes "mutex_inv mo hl flag sys" "in_critical sys t" "in_critical sys u"
  shows "t = u"
  using assms by (auto simp: mutex_inv_def in_critical_def holds_flag_def)

lemma sm_entry_ok: "sm_entry m = Some p \<Longrightarrow> sm_method_of p = Some m \<and> \<not> sm_has_flag p"
  by (cases m) auto

lemma ss_entry_flag_ok: "ss_entry m = Some p \<Longrightarrow> ss_method_of p = Some m \<and> \<not> ss_has_flag p"
  by (cases m) auto

lemma SpinMutex_mutual_exclusion:
  assumes "in_critical (exec SpinMutex_class ident evs (init_system SpinMutex_class)) t"
    "in_critical (exec SpinMutex_class ident evs (init_system SpinMutex_class)) u"
  shows "t = u"
proof -
  have "mutex_inv sm_method_of sm_has_flag sm_flag
      (exec SpinMutex_class ident evs (init_system SpinMutex_class))"
  proof (rule exec_mutex_inv)
    show "mutex_inv sm_method_of sm_has_flag sm_flag (init_system SpinMutex_class)"
      by (rule init_mutex_inv) (simp add: SpinMutex_class_def SpinMutex_init_def)
  next
    fix th p g s p' s'
    assume "excl_ok sm_method_of sm_has_flag th" "th_pc th = Some p"
      "holds_flag sm_has_flag th \<longrightarrow> sm_flag s" "step_of SpinMutex_class g p s = (p', s')"
    then show "excl_ok sm_method_of sm_has_flag (advance (result_at SpinMutex_class) th p') \<and>
      (if holds_flag sm_has_flag th
       then holds_flag sm_has_flag (advance (result_at SpinMutex_class) th p') = sm_flag s'
       else (holds_flag sm_has_flag (advance (result_at SpinMutex_class) th p') \<and> \<not> sm_flag s \<and> sm_flag s') \<or>
            (\<not> holds_flag sm_has_flag (advance (result_at SpinMutex_class) th p') \<and> sm_flag s' = sm_flag s))"
      using sm_step_flag [of th p s g p' s'] by (simp add: SpinMutex_class_def)
  next
    fix m p assume "entry_of SpinMutex_class m = Some p"
    then show "sm_method_of p = Some m \<and> \<not> sm_has_flag p"
      using sm_entry_ok [of m p] by (simp add: SpinMutex_class_def)
  qed
  then show ?thesis using assms by (rule mutex_inv_exclusion)
qed

lemma SharedSpinMutex_mutual_exclusion:
  assumes "in_critical (exec SharedSpinMutex_class ident evs (init_system SharedSpinMutex_class)) t"
    "in_critical (exec SharedSpinMutex_class ident evs (init_system SharedSpinMutex_class)) u"
  shows "t = u"
proof -
  have "mutex_inv ss_method_of ss_has_flag ss_writeFlag
      (exec SharedSpinMutex_class ident evs (init_system SharedSpinMutex_class))"
  proof (rule exec_mutex_inv)
    show "mutex_inv ss_method_of ss_has_flag ss_writeFlag (init_system SharedSpinMutex_class)"
      by (rule init_mutex_inv) (simp add: SharedSpinMutex_class_def SharedSpinMutex_init_def)
  next
    fix th p g s p' s'
    assume "excl_ok ss_method_of ss_has_flag th" "th_pc th = Some p"
      "holds_flag ss_has_flag th \<longrightarrow> ss_writeFlag s"
      "step_of SharedSpinMutex_class g p s = (p', s')"
    then show "excl_ok ss_method_of ss_has_flag (advance (result_at SharedSpinMutex_class) th p') \<and>
      (if holds_flag ss_has_flag th
       then holds_flag ss_has_flag (advance (result_at SharedSpinMutex_class) th p') = ss_writeFlag s'
       else (holds_flag ss_has_flag (advance (result_at SharedSpinMutex_class) th p') \<and>
               \<not> ss_writeFlag s \<and> ss_writeFlag s') \<or>
            (\<not> holds_flag ss_has_flag (advance (result_at SharedSpinMutex_class) th p') \<and>
               ss_writeFlag s' = ss_writeFlag s))"
      using ss_step_flag [of th p s g p' s'] by (simp add: SharedSpinMutex_class_def)
  next
    fix m p assume "entry_of SharedSpinMutex_class m = Some p"
    then show "ss_method_of p = Some m \<and> \<not> ss_has_flag p"
      using ss_entry_flag_ok [of m p] by (simp add: SharedSpinMutex_class_def)
  qed
  then show ?thesis using assms by (rule mutex_inv_exclusion)
qed

text \<open>The reentrant classes: when the threads that act, those in \<open>A\<close>, have pairwise
  distinct, nonzero identities, the owner invariant holds in every state reached.\<close>

lemma fire_owner_inv:
  assumes holder: "\<And>th p g s p' s'. tok th \<Longrightarrow> th_pc th = Some p \<Longrightarrow> holds_flag hl th \<Longrightarrow>
      hs g th (core s) \<Longrightarrow> step_of c g p s = (p', s') \<Longrightarrow>
      tok (advance (result_at c) th p') \<and>
      ((holds_flag hl (advance (result_at c) th p') \<and> hs g (advance (result_at c) th p') (core s')) \<or>
       (\<not> holds_flag hl (advance (result_at c) th p') \<and> core_free (core s')))"
    and free: "\<And>th p g s p' s'. tok th \<Longrightarrow> th_pc th = Some p \<Longrightarrow> \<not> holds_flag hl th \<Longrightarrow>
      core_free (core s) \<Longrightarrow> g \<noteq> 0 \<Longrightarrow> step_of c g p s = (p', s') \<Longrightarrow>
      tok (advance (result_at c) th p') \<and>
      ((holds_flag hl (advance (result_at c) th p') \<and> hs g (advance (result_at c) th p') (core s')) \<or>
       (\<not> holds_flag hl (advance (result_at c) th p') \<and> core_free (core s')))"
    and blocked: "\<And>th p g s p' s'. tok th \<Longrightarrow> th_pc th = Some p \<Longrightarrow> \<not> holds_flag hl th \<Longrightarrow>
      core_blocked g (core s) \<Longrightarrow> step_of c g p s = (p', s') \<Longrightarrow>
      tok (advance (result_at c) th p') \<and> \<not> holds_flag hl (advance (result_at c) th p') \<and>
      core s' = core s"
    and others: "\<And>g g' th k. hs g' th k \<Longrightarrow> g \<noteq> g' \<Longrightarrow> g \<noteq> 0 \<Longrightarrow> core_blocked g k"
    and entry: "\<And>th m p g k. tok th \<Longrightarrow> th_pc th = None \<Longrightarrow> may_call m th \<Longrightarrow>
      entry_of c m = Some p \<Longrightarrow>
      tok (th\<lparr>th_pc := Some p, th_method := m\<rparr>) \<and>
      holds_flag hl (th\<lparr>th_pc := Some p, th_method := m\<rparr>) = holds_flag hl th \<and>
      (holds_flag hl th \<longrightarrow> hs g th k \<longrightarrow> hs g (th\<lparr>th_pc := Some p, th_method := m\<rparr>) k)"
    and inj: "inj_on ident A" and nz: "\<And>t. t \<in> A \<Longrightarrow> ident t \<noteq> 0"
    and mem: "thread_of e \<in> A"
    and inv: "owner_inv tok hl hs core ident A sys"
  shows "owner_inv tok hl hs core ident A (fire c ident e sys)"
proof (cases e)
  case (Call t m)
  show ?thesis
  proof (cases "aborted sys \<or> th_pc (threads sys t) \<noteq> None \<or> entry_of c m = None
      \<or> \<not> may_call m (threads sys t)")
    case True
    then show ?thesis using inv by (auto simp: Call Let_def)
  next
    case False
    then obtain p where p: "entry_of c m = Some p" by auto
    let ?th = "threads sys t"
    let ?th' = "?th\<lparr>th_pc := Some p, th_method := m\<rparr>"
    let ?thr = "(threads sys)(t := ?th')"
    let ?k = "core (lock_state sys)"
    from False have idle: "th_pc ?th = None" and may: "may_call m ?th" by auto
    have fired: "fire c ident e sys = sys\<lparr>threads := ?thr\<rparr>"
      using False p by (simp add: Call Let_def)
    from inv have wft: "tok ?th" and wfall: "\<And>u. tok (threads sys u)"
      by (simp_all add: owner_inv_def)
    from entry [OF wft idle may p]
    have tok': "tok ?th'" and same: "holds_flag hl ?th' = holds_flag hl ?th"
      and keep: "\<And>g. holds_flag hl ?th \<Longrightarrow> hs g ?th ?k \<Longrightarrow> hs g ?th' ?k"
      by blast+
    have each: "\<And>u. holds_flag hl (?thr u) = holds_flag hl (threads sys u)"
      using same by simp
    have a: "\<forall>u. tok (?thr u)" using tok' wfall by simp
    from inv consider
      (held) w where "w \<in> A" "holds_flag hl (threads sys w)" "hs (ident w) (threads sys w) ?k"
        "\<forall>u. u \<noteq> w \<longrightarrow> \<not> holds_flag hl (threads sys u)"
      | (nobody) "\<forall>u. \<not> holds_flag hl (threads sys u)" "core_free ?k"
      unfolding owner_inv_def by blast
    then have "(\<exists>w\<in>A. holds_flag hl (?thr w) \<and> hs (ident w) (?thr w) ?k \<and>
            (\<forall>u. u \<noteq> w \<longrightarrow> \<not> holds_flag hl (?thr u))) \<or>
          ((\<forall>u. \<not> holds_flag hl (?thr u)) \<and> core_free ?k)"
    proof cases
      case held
      have "hs (ident w) (?thr w) ?k"
      proof (cases "w = t")
        case True
        with held keep [of "ident t"] show ?thesis by simp
      next
        case False
        with held show ?thesis by simp
      qed
      with held each show ?thesis by blast
    next
      case nobody
      with each show ?thesis by blast
    qed
    then show ?thesis unfolding fired owner_inv_def using a by (simp del: fun_upd_apply)
  qed
next
  case (Step t)
  show ?thesis
  proof (cases "aborted sys \<or> th_pc (threads sys t) = None")
    case True
    then show ?thesis using inv by (auto simp: Step Let_def)
  next
    case False
    then obtain p where p: "th_pc (threads sys t) = Some p" by auto
    let ?th = "threads sys t"
    let ?s = "lock_state sys"
    obtain p' s' where st: "step_of c (ident t) p ?s = (p', s')"
      by (cases "step_of c (ident t) p ?s") auto
    let ?th' = "advance (result_at c) ?th p'"
    let ?thr = "(threads sys)(t := ?th')"
    have fired: "fire c ident e sys = sys\<lparr>threads := ?thr, lock_state := s',
        aborted := (case result_at c p' of None \<Rightarrow> False | Some r \<Rightarrow> \<not> is_returned r)\<rparr>"
      using False p st by (simp add: Step Let_def)
    from inv have wft: "tok ?th" and wfall: "\<And>u. tok (threads sys u)"
      by (simp_all add: owner_inv_def)
    have tA: "t \<in> A" using mem Step by simp
    from inv consider
      (self) "holds_flag hl ?th" "hs (ident t) ?th (core ?s)"
        "\<forall>u. u \<noteq> t \<longrightarrow> \<not> holds_flag hl (threads sys u)"
      | (other) w where "w \<in> A" "w \<noteq> t" "holds_flag hl (threads sys w)"
        "hs (ident w) (threads sys w) (core ?s)"
        "\<forall>u. u \<noteq> w \<longrightarrow> \<not> holds_flag hl (threads sys u)"
      | (nobody) "\<forall>u. \<not> holds_flag hl (threads sys u)" "core_free (core ?s)"
      unfolding owner_inv_def
      apply (elim conjE disjE bexE)
      subgoal for w by (cases "w = t") auto
      by blast
    then have "(\<forall>u. tok (?thr u)) \<and>
        ((\<exists>w\<in>A. holds_flag hl (?thr w) \<and> hs (ident w) (?thr w) (core s') \<and>
            (\<forall>u. u \<noteq> w \<longrightarrow> \<not> holds_flag hl (?thr u))) \<or>
          ((\<forall>u. \<not> holds_flag hl (?thr u)) \<and> core_free (core s')))"
    proof cases
      case self
      from holder [OF wft p self(1) self(2) st]
      have tok': "tok ?th'" and eff: "(holds_flag hl ?th' \<and> hs (ident t) ?th' (core s')) \<or>
          (\<not> holds_flag hl ?th' \<and> core_free (core s'))" by simp_all
      have a: "\<forall>u. tok (?thr u)" using tok' wfall by simp
      from eff show ?thesis
      proof
        assume "holds_flag hl ?th' \<and> hs (ident t) ?th' (core s')"
        then have "holds_flag hl (?thr t) \<and> hs (ident t) (?thr t) (core s') \<and>
            (\<forall>u. u \<noteq> t \<longrightarrow> \<not> holds_flag hl (?thr u))"
          using self(3) by simp
        with a tA show ?thesis by blast
      next
        assume "\<not> holds_flag hl ?th' \<and> core_free (core s')"
        then have "(\<forall>u. \<not> holds_flag hl (?thr u)) \<and> core_free (core s')"
          using self(3) by simp
        with a show ?thesis by blast
      qed
    next
      case other
      from other(2,5) have nh: "\<not> holds_flag hl ?th" by metis
      from other(1,2) inj tA have "ident t \<noteq> ident w" by (auto dest: inj_onD)
      from others [OF other(4) this nz [OF tA]] have bl: "core_blocked (ident t) (core ?s)" .
      from blocked [OF wft p nh bl st]
      have tok': "tok ?th'" and nh': "\<not> holds_flag hl ?th'" and same: "core s' = core ?s" by simp_all
      have a: "\<forall>u. tok (?thr u)" using tok' wfall by simp
      have "holds_flag hl (?thr w) \<and> hs (ident w) (?thr w) (core s') \<and>
            (\<forall>u. u \<noteq> w \<longrightarrow> \<not> holds_flag hl (?thr u))"
        using other nh' same by simp
      with a other(1) show ?thesis by blast
    next
      case nobody
      from nobody(1) have nh: "\<not> holds_flag hl ?th" by blast
      from free [OF wft p nh nobody(2) nz [OF tA] st]
      have tok': "tok ?th'" and eff: "(holds_flag hl ?th' \<and> hs (ident t) ?th' (core s')) \<or>
          (\<not> holds_flag hl ?th' \<and> core_free (core s'))" by simp_all
      have a: "\<forall>u. tok (?thr u)" using tok' wfall by simp
      from eff show ?thesis
      proof
        assume "holds_flag hl ?th' \<and> hs (ident t) ?th' (core s')"
        then have "holds_flag hl (?thr t) \<and> hs (ident t) (?thr t) (core s') \<and>
            (\<forall>u. u \<noteq> t \<longrightarrow> \<not> holds_flag hl (?thr u))"
          using nobody(1) by simp
        with a tA show ?thesis by blast
      next
        assume "\<not> holds_flag hl ?th' \<and> core_free (core s')"
        then have "(\<forall>u. \<not> holds_flag hl (?thr u)) \<and> core_free (core s')"
          using nobody(1) by simp
        with a show ?thesis by blast
      qed
    qed
    then show ?thesis unfolding fired owner_inv_def by (simp del: fun_upd_apply)
  qed
qed

lemma nested_inc:
  "nested g k ow c \<Longrightarrow> sint c \<noteq> 2147483647 \<Longrightarrow> nested g (Suc k) ow (c + 1)"
  using sint_of_nat32 [of k] by (auto simp: nested_def)

lemma nested_not_min: "nested g k ow c \<Longrightarrow> sint c = - 2147483648 \<Longrightarrow> False"
  using sint_of_nat32 [of k] by (auto simp: nested_def)

lemma nested_ownerD: "nested g k ow c \<Longrightarrow> ow = g"
  by (simp add: nested_def)

lemma nested_one: "nested g (Suc 0) g 1"
  by (simp add: nested_def)

lemma after_decI: "nested g k ow c \<Longrightarrow> after_dec g k ow (c - 1)"
  by (simp add: nested_def after_dec_def)

lemma after_dec_owner: "after_dec g k ow c \<Longrightarrow> ow = g"
  by (simp add: after_dec_def)

lemma after_dec_zero: "after_dec g k ow 0 \<Longrightarrow> k = Suc 0"
proof -
  assume a: "after_dec g k ow 0"
  then have "sint (of_nat k :: 32 word) = int k" and "(of_nat k :: 32 word) = 1"
    using sint_of_nat32 [of k] by (simp_all add: after_dec_def)
  then show ?thesis by simp
qed

lemma after_dec_pos: "after_dec g k ow c \<Longrightarrow> c \<noteq> 0 \<Longrightarrow> Suc 0 < k"
  by (cases k) (auto simp: after_dec_def intro!: gr0I)

lemma after_dec_nested: "after_dec g k ow c \<Longrightarrow> c \<noteq> 0 \<Longrightarrow> nested g (k - Suc 0) ow c"
  using after_dec_pos [of g k ow c] by (cases k) (auto simp: after_dec_def nested_def)

lemma rs_step_holder:
  assumes "rs_tok th" "th_pc th = Some p" "holds_flag rs_has_flag th"
    "rs_holder g th (rs_core s)" "ReentrantSpinMutex_step g p s = (p', s')"
  shows "rs_tok (advance rs_result th p') \<and>
    ((holds_flag rs_has_flag (advance rs_result th p') \<and>
      rs_holder g (advance rs_result th p') (rs_core s')) \<or>
     (\<not> holds_flag rs_has_flag (advance rs_result th p') \<and> core_free (rs_core s')))"
  using assms
  by (cases p)
    (auto simp: rs_tok_def holds_flag_def rs_holder_def rs_core_def advance_def core_free_def
      split: if_splits
      intro: nested_inc nested_one after_decI after_dec_nested
      dest: nested_ownerD after_dec_owner after_dec_zero after_dec_pos nested_not_min)

lemma rs_step_free:
  assumes "rs_tok th" "th_pc th = Some p" "\<not> holds_flag rs_has_flag th"
    "core_free (rs_core s)" "g \<noteq> 0" "ReentrantSpinMutex_step g p s = (p', s')"
  shows "rs_tok (advance rs_result th p') \<and>
    ((holds_flag rs_has_flag (advance rs_result th p') \<and>
      rs_holder g (advance rs_result th p') (rs_core s')) \<or>
     (\<not> holds_flag rs_has_flag (advance rs_result th p') \<and> core_free (rs_core s')))"
  using assms
  by (cases p)
    (auto simp: rs_tok_def holds_flag_def rs_holder_def rs_core_def advance_def core_free_def
      split: if_splits)

lemma rs_step_blocked:
  assumes "rs_tok th" "th_pc th = Some p" "\<not> holds_flag rs_has_flag th"
    "core_blocked g (rs_core s)" "ReentrantSpinMutex_step g p s = (p', s')"
  shows "rs_tok (advance rs_result th p') \<and> \<not> holds_flag rs_has_flag (advance rs_result th p') \<and>
    rs_core s' = rs_core s"
  using assms
  by (cases p)
    (auto simp: rs_tok_def holds_flag_def rs_core_def advance_def core_blocked_def
      split: if_splits)

lemma rs_holder_blocks:
  "rs_holder g' th k \<Longrightarrow> g \<noteq> g' \<Longrightarrow> g \<noteq> 0 \<Longrightarrow> core_blocked g k"
  by (cases k; cases "th_pc th"; cases "the (th_pc th)")
    (auto simp: rs_holder_def core_blocked_def dest: nested_ownerD after_dec_owner)

lemma rs_entry_holder:
  assumes "rs_tok th" "th_pc th = None" "may_call m th" "rs_entry m = Some p"
  shows "rs_tok (th\<lparr>th_pc := Some p, th_method := m\<rparr>) \<and>
      holds_flag rs_has_flag (th\<lparr>th_pc := Some p, th_method := m\<rparr>) = holds_flag rs_has_flag th \<and>
      (holds_flag rs_has_flag th \<longrightarrow> rs_holder g th k \<longrightarrow>
         rs_holder g (th\<lparr>th_pc := Some p, th_method := m\<rparr>) k)"
  using assms by (cases m) (auto simp: rs_tok_def holds_flag_def rs_holder_def)

lemma exec_owner_inv:
  assumes holder: "\<And>th p g s p' s'. tok th \<Longrightarrow> th_pc th = Some p \<Longrightarrow> holds_flag hl th \<Longrightarrow>
      hs g th (core s) \<Longrightarrow> step_of c g p s = (p', s') \<Longrightarrow>
      tok (advance (result_at c) th p') \<and>
      ((holds_flag hl (advance (result_at c) th p') \<and> hs g (advance (result_at c) th p') (core s')) \<or>
       (\<not> holds_flag hl (advance (result_at c) th p') \<and> core_free (core s')))"
    and free: "\<And>th p g s p' s'. tok th \<Longrightarrow> th_pc th = Some p \<Longrightarrow> \<not> holds_flag hl th \<Longrightarrow>
      core_free (core s) \<Longrightarrow> g \<noteq> 0 \<Longrightarrow> step_of c g p s = (p', s') \<Longrightarrow>
      tok (advance (result_at c) th p') \<and>
      ((holds_flag hl (advance (result_at c) th p') \<and> hs g (advance (result_at c) th p') (core s')) \<or>
       (\<not> holds_flag hl (advance (result_at c) th p') \<and> core_free (core s')))"
    and blocked: "\<And>th p g s p' s'. tok th \<Longrightarrow> th_pc th = Some p \<Longrightarrow> \<not> holds_flag hl th \<Longrightarrow>
      core_blocked g (core s) \<Longrightarrow> step_of c g p s = (p', s') \<Longrightarrow>
      tok (advance (result_at c) th p') \<and> \<not> holds_flag hl (advance (result_at c) th p') \<and>
      core s' = core s"
    and others: "\<And>g g' th k. hs g' th k \<Longrightarrow> g \<noteq> g' \<Longrightarrow> g \<noteq> 0 \<Longrightarrow> core_blocked g k"
    and entry: "\<And>th m p g k. tok th \<Longrightarrow> th_pc th = None \<Longrightarrow> may_call m th \<Longrightarrow>
      entry_of c m = Some p \<Longrightarrow>
      tok (th\<lparr>th_pc := Some p, th_method := m\<rparr>) \<and>
      holds_flag hl (th\<lparr>th_pc := Some p, th_method := m\<rparr>) = holds_flag hl th \<and>
      (holds_flag hl th \<longrightarrow> hs g th k \<longrightarrow> hs g (th\<lparr>th_pc := Some p, th_method := m\<rparr>) k)"
    and inj: "inj_on ident A" and nz: "\<And>t. t \<in> A \<Longrightarrow> ident t \<noteq> 0"
  shows "owner_inv tok hl hs core ident A sys \<Longrightarrow> \<forall>e\<in>set evs. thread_of e \<in> A \<Longrightarrow>
    owner_inv tok hl hs core ident A (exec c ident evs sys)"
proof (induction evs arbitrary: sys)
  case Nil
  then show ?case by simp
next
  case (Cons e evs)
  from Cons.prems(2) have mem: "thread_of e \<in> A" by simp
  have "owner_inv tok hl hs core ident A (fire c ident e sys)"
    by (rule fire_owner_inv [OF holder free blocked others entry inj nz mem Cons.prems(1)])
  then show ?case using Cons.IH Cons.prems(2) by simp
qed

lemma init_owner_inv:
  "core_free (core (init_state c)) \<Longrightarrow> (\<And>th. th_pc th = None \<Longrightarrow> tok th) \<Longrightarrow>
   owner_inv tok hl hs core ident A (init_system c)"
  by (simp add: owner_inv_def init_system_def idle_thread_def holds_flag_def)

lemma owner_inv_exclusion:
  assumes "owner_inv tok hl hs core ident A sys" "in_critical sys t" "in_critical sys u"
  shows "t = u"
proof -
  from assms(2,3) have ht: "holds_flag hl (threads sys t)" and hu: "holds_flag hl (threads sys u)"
    by (simp_all add: in_critical_def holds_flag_def)
  from assms(1) ht obtain w where w: "\<forall>v. v \<noteq> w \<longrightarrow> \<not> holds_flag hl (threads sys v)"
    unfolding owner_inv_def by auto
  from w ht have "t = w" by auto
  moreover from w hu have "u = w" by auto
  ultimately show ?thesis by simp
qed

lemma ReentrantSpinMutex_owner_inv:
  assumes "inj_on ident A" "\<And>t. t \<in> A \<Longrightarrow> ident t \<noteq> 0"
    "\<forall>e\<in>set evs. thread_of e \<in> A"
  shows "owner_inv rs_tok rs_has_flag rs_holder rs_core ident A
      (exec ReentrantSpinMutex_class ident evs (init_system ReentrantSpinMutex_class))"
proof (rule exec_owner_inv [OF _ _ _ _ _ assms(1,2) _ assms(3)])
  show "owner_inv rs_tok rs_has_flag rs_holder rs_core ident A (init_system ReentrantSpinMutex_class)"
    by (rule init_owner_inv)
      (simp_all add: ReentrantSpinMutex_class_def ReentrantSpinMutex_init_def core_free_def
        rs_core_def rs_tok_def)
next
  fix th p g s p' s'
  assume "rs_tok th" "th_pc th = Some p" "holds_flag rs_has_flag th" "rs_holder g th (rs_core s)"
    "step_of ReentrantSpinMutex_class g p s = (p', s')"
  then show "rs_tok (advance (result_at ReentrantSpinMutex_class) th p') \<and>
    ((holds_flag rs_has_flag (advance (result_at ReentrantSpinMutex_class) th p') \<and>
      rs_holder g (advance (result_at ReentrantSpinMutex_class) th p') (rs_core s')) \<or>
     (\<not> holds_flag rs_has_flag (advance (result_at ReentrantSpinMutex_class) th p') \<and>
      core_free (rs_core s')))"
    using rs_step_holder [of th p g s p' s'] by (simp add: ReentrantSpinMutex_class_def)
next
  fix th p g s p' s'
  assume "rs_tok th" "th_pc th = Some p" "\<not> holds_flag rs_has_flag th" "core_free (rs_core s)"
    "g \<noteq> 0" "step_of ReentrantSpinMutex_class g p s = (p', s')"
  then show "rs_tok (advance (result_at ReentrantSpinMutex_class) th p') \<and>
    ((holds_flag rs_has_flag (advance (result_at ReentrantSpinMutex_class) th p') \<and>
      rs_holder g (advance (result_at ReentrantSpinMutex_class) th p') (rs_core s')) \<or>
     (\<not> holds_flag rs_has_flag (advance (result_at ReentrantSpinMutex_class) th p') \<and>
      core_free (rs_core s')))"
    using rs_step_free [of th p s g p' s'] by (simp add: ReentrantSpinMutex_class_def)
next
  fix th p g s p' s'
  assume "rs_tok th" "th_pc th = Some p" "\<not> holds_flag rs_has_flag th"
    "core_blocked g (rs_core s)" "step_of ReentrantSpinMutex_class g p s = (p', s')"
  then show "rs_tok (advance (result_at ReentrantSpinMutex_class) th p') \<and>
    \<not> holds_flag rs_has_flag (advance (result_at ReentrantSpinMutex_class) th p') \<and>
    rs_core s' = rs_core s"
    using rs_step_blocked [of th p g s p' s'] by (simp add: ReentrantSpinMutex_class_def)
next
  fix g g' :: size_t and th :: "rs_label thread" and k
  assume "rs_holder g' th k" "g \<noteq> g'" "g \<noteq> 0"
  then show "core_blocked g k" by (rule rs_holder_blocks)
next
  fix th :: "rs_label thread" and m p g k
  assume "rs_tok th" "th_pc th = None" "may_call m th"
    "entry_of ReentrantSpinMutex_class m = Some p"
  then show "rs_tok (th\<lparr>th_pc := Some p, th_method := m\<rparr>) \<and>
    holds_flag rs_has_flag (th\<lparr>th_pc := Some p, th_method := m\<rparr>) = holds_flag rs_has_flag th \<and>
    (holds_flag rs_has_flag th \<longrightarrow> rs_holder g th k \<longrightarrow>
       rs_holder g (th\<lparr>th_pc := Some p, th_method := m\<rparr>) k)"
    using rs_entry_holder [of th m p g k] by (simp add: ReentrantSpinMutex_class_def)
qed

lemma ReentrantSpinMutex_mutual_exclusion:
  assumes "inj_on ident A" "\<And>t. t \<in> A \<Longrightarrow> ident t \<noteq> 0"
    "\<forall>e\<in>set evs. thread_of e \<in> A"
    "in_critical (exec ReentrantSpinMutex_class ident evs (init_system ReentrantSpinMutex_class)) t"
    "in_critical (exec ReentrantSpinMutex_class ident evs (init_system ReentrantSpinMutex_class)) u"
  shows "t = u"
  using ReentrantSpinMutex_owner_inv [OF assms(1,2,3)] assms(4,5) by (rule owner_inv_exclusion)

lemma rss_step_holder:
  assumes "rss_tok th" "th_pc th = Some p" "holds_flag rss_has_flag th"
    "rss_holder g th (rss_core s)" "ReentrantSharedSpinMutex_step g p s = (p', s')"
  shows "rss_tok (advance rss_result th p') \<and>
    ((holds_flag rss_has_flag (advance rss_result th p') \<and>
      rss_holder g (advance rss_result th p') (rss_core s')) \<or>
     (\<not> holds_flag rss_has_flag (advance rss_result th p') \<and> core_free (rss_core s')))"
  using assms
  by (cases p)
    (auto simp: rss_tok_def holds_flag_def rss_holder_def rss_core_def advance_def core_free_def
      split: if_splits
      intro: nested_inc nested_one after_decI after_dec_nested
      dest: nested_ownerD after_dec_owner after_dec_zero after_dec_pos nested_not_min)

lemma rss_step_free:
  assumes "rss_tok th" "th_pc th = Some p" "\<not> holds_flag rss_has_flag th"
    "core_free (rss_core s)" "g \<noteq> 0" "ReentrantSharedSpinMutex_step g p s = (p', s')"
  shows "rss_tok (advance rss_result th p') \<and>
    ((holds_flag rss_has_flag (advance rss_result th p') \<and>
      rss_holder g (advance rss_result th p') (rss_core s')) \<or>
     (\<not> holds_flag rss_has_flag (advance rss_result th p') \<and> core_free (rss_core s')))"
  using assms
  by (cases p)
    (auto simp: rss_tok_def holds_flag_def rss_holder_def rss_core_def advance_def core_free_def
      split: if_splits)

lemma rss_step_blocked:
  assumes "rss_tok th" "th_pc th = Some p" "\<not> holds_flag rss_has_flag th"
    "core_blocked g (rss_core s)" "ReentrantSharedSpinMutex_step g p s = (p', s')"
  shows "rss_tok (advance rss_result th p') \<and>
    \<not> holds_flag rss_has_flag (advance rss_result th p') \<and> rss_core s' = rss_core s"
  using assms
  by (cases p)
    (auto simp: rss_tok_def holds_flag_def rss_core_def advance_def core_blocked_def
      split: if_splits)

lemma rss_holder_blocks:
  "rss_holder g' th k \<Longrightarrow> g \<noteq> g' \<Longrightarrow> g \<noteq> 0 \<Longrightarrow> core_blocked g k"
  by (cases k; cases "th_pc th"; cases "the (th_pc th)")
    (auto simp: rss_holder_def core_blocked_def dest: nested_ownerD after_dec_owner)

lemma rss_entry_holder:
  assumes "rss_tok th" "th_pc th = None" "may_call m th" "rss_entry m = Some p"
  shows "rss_tok (th\<lparr>th_pc := Some p, th_method := m\<rparr>) \<and>
      holds_flag rss_has_flag (th\<lparr>th_pc := Some p, th_method := m\<rparr>) = holds_flag rss_has_flag th \<and>
      (holds_flag rss_has_flag th \<longrightarrow> rss_holder g th k \<longrightarrow>
         rss_holder g (th\<lparr>th_pc := Some p, th_method := m\<rparr>) k)"
  using assms by (cases m) (auto simp: rss_tok_def holds_flag_def rss_holder_def)

lemma ReentrantSharedSpinMutex_owner_inv:
  assumes "inj_on ident A" "\<And>t. t \<in> A \<Longrightarrow> ident t \<noteq> 0"
    "\<forall>e\<in>set evs. thread_of e \<in> A"
  shows "owner_inv rss_tok rss_has_flag rss_holder rss_core ident A
      (exec ReentrantSharedSpinMutex_class ident evs (init_system ReentrantSharedSpinMutex_class))"
proof (rule exec_owner_inv [OF _ _ _ _ _ assms(1,2) _ assms(3)])
  show "owner_inv rss_tok rss_has_flag rss_holder rss_core ident A
      (init_system ReentrantSharedSpinMutex_class)"
    by (rule init_owner_inv)
      (simp_all add: ReentrantSharedSpinMutex_class_def ReentrantSharedSpinMutex_init_def
        core_free_def rss_core_def rss_tok_def)
next
  fix th p g s p' s'
  assume "rss_tok th" "th_pc th = Some p" "holds_flag rss_has_flag th"
    "rss_holder g th (rss_core s)" "step_of ReentrantSharedSpinMutex_class g p s = (p', s')"
  then show "rss_tok (advance (result_at ReentrantSharedSpinMutex_class) th p') \<and>
    ((holds_flag rss_has_flag (advance (result_at ReentrantSharedSpinMutex_class) th p') \<and>
      rss_holder g (advance (result_at ReentrantSharedSpinMutex_class) th p') (rss_core s')) \<or>
     (\<not> holds_flag rss_has_flag (advance (result_at ReentrantSharedSpinMutex_class) th p') \<and>
      core_free (rss_core s')))"
    using rss_step_holder [of th p g s p' s'] by (simp add: ReentrantSharedSpinMutex_class_def)
next
  fix th p g s p' s'
  assume "rss_tok th" "th_pc th = Some p" "\<not> holds_flag rss_has_flag th"
    "core_free (rss_core s)" "g \<noteq> 0"
    "step_of ReentrantSharedSpinMutex_class g p s = (p', s')"
  then show "rss_tok (advance (result_at ReentrantSharedSpinMutex_class) th p') \<and>
    ((holds_flag rss_has_flag (advance (result_at ReentrantSharedSpinMutex_class) th p') \<and>
      rss_holder g (advance (result_at ReentrantSharedSpinMutex_class) th p') (rss_core s')) \<or>
     (\<not> holds_flag rss_has_flag (advance (result_at ReentrantSharedSpinMutex_class) th p') \<and>
      core_free (rss_core s')))"
    using rss_step_free [of th p s g p' s'] by (simp add: ReentrantSharedSpinMutex_class_def)
next
  fix th p g s p' s'
  assume "rss_tok th" "th_pc th = Some p" "\<not> holds_flag rss_has_flag th"
    "core_blocked g (rss_core s)" "step_of ReentrantSharedSpinMutex_class g p s = (p', s')"
  then show "rss_tok (advance (result_at ReentrantSharedSpinMutex_class) th p') \<and>
    \<not> holds_flag rss_has_flag (advance (result_at ReentrantSharedSpinMutex_class) th p') \<and>
    rss_core s' = rss_core s"
    using rss_step_blocked [of th p g s p' s'] by (simp add: ReentrantSharedSpinMutex_class_def)
next
  fix g g' :: size_t and th :: "rss_label thread" and k
  assume "rss_holder g' th k" "g \<noteq> g'" "g \<noteq> 0"
  then show "core_blocked g k" by (rule rss_holder_blocks)
next
  fix th :: "rss_label thread" and m p g k
  assume "rss_tok th" "th_pc th = None" "may_call m th"
    "entry_of ReentrantSharedSpinMutex_class m = Some p"
  then show "rss_tok (th\<lparr>th_pc := Some p, th_method := m\<rparr>) \<and>
    holds_flag rss_has_flag (th\<lparr>th_pc := Some p, th_method := m\<rparr>) =
      holds_flag rss_has_flag th \<and>
    (holds_flag rss_has_flag th \<longrightarrow> rss_holder g th k \<longrightarrow>
       rss_holder g (th\<lparr>th_pc := Some p, th_method := m\<rparr>) k)"
    using rss_entry_holder [of th m p g k] by (simp add: ReentrantSharedSpinMutex_class_def)
qed

lemma ReentrantSharedSpinMutex_mutual_exclusion:
  assumes "inj_on ident A" "\<And>t. t \<in> A \<Longrightarrow> ident t \<noteq> 0"
    "\<forall>e\<in>set evs. thread_of e \<in> A"
    "in_critical (exec ReentrantSharedSpinMutex_class ident evs
       (init_system ReentrantSharedSpinMutex_class)) t"
    "in_critical (exec ReentrantSharedSpinMutex_class ident evs
       (init_system ReentrantSharedSpinMutex_class)) u"
  shows "t = u"
  using ReentrantSharedSpinMutex_owner_inv [OF assms(1,2,3)] assms(4,5) by (rule owner_inv_exclusion)

text \<open>With pairwise distinct, nonzero identities of the threads that act, whenever every thread is between
  calls the reentry count is zero exactly when the owner is 0 and positive exactly when an
  owner is set.\<close>

lemma nested_count: "nested g k ow c \<Longrightarrow> g \<noteq> 0 \<Longrightarrow> ow \<noteq> 0 \<and> c \<noteq> 0 \<and> 0 < sint c"
  using sint_of_nat32 [of k] of_nat32_nonzero [of k] by (simp add: nested_def)

lemma ReentrantSpinMutex_count_owner_between_calls:
  assumes "inj_on ident A" "\<And>t. t \<in> A \<Longrightarrow> ident t \<noteq> 0"
    "\<forall>e\<in>set evs. thread_of e \<in> A"
    "\<forall>t. th_pc (threads (exec ReentrantSpinMutex_class ident evs
        (init_system ReentrantSpinMutex_class)) t) = None"
  shows "rs_count_owner (lock_state (exec ReentrantSpinMutex_class ident evs
        (init_system ReentrantSpinMutex_class)))"
proof -
  let ?sys = "exec ReentrantSpinMutex_class ident evs (init_system ReentrantSpinMutex_class)"
  from ReentrantSpinMutex_owner_inv [OF assms(1,2,3)]
  have "(\<exists>t\<in>A. rs_holder (ident t) (threads ?sys t) (rs_core (lock_state ?sys))) \<or>
      core_free (rs_core (lock_state ?sys))"
    unfolding owner_inv_def by auto
  then show ?thesis
  proof
    assume "\<exists>t\<in>A. rs_holder (ident t) (threads ?sys t) (rs_core (lock_state ?sys))"
    then obtain t where tA: "t \<in> A"
      and "rs_holder (ident t) (threads ?sys t) (rs_core (lock_state ?sys))" ..
    with assms(4) have "nested (ident t) (th_excl (threads ?sys t))
        (rs_owner (lock_state ?sys)) (rs_reenCount (lock_state ?sys))"
      by (simp add: rs_holder_def rs_core_def)
    from nested_count [OF this assms(2) [OF tA]] show ?thesis by (simp add: rs_count_owner_def)
  next
    assume "core_free (rs_core (lock_state ?sys))"
    then show ?thesis by (simp add: core_free_def rs_core_def rs_count_owner_def)
  qed
qed

lemma ReentrantSharedSpinMutex_count_owner_between_calls:
  assumes "inj_on ident A" "\<And>t. t \<in> A \<Longrightarrow> ident t \<noteq> 0"
    "\<forall>e\<in>set evs. thread_of e \<in> A"
    "\<forall>t. th_pc (threads (exec ReentrantSharedSpinMutex_class ident evs
        (init_system ReentrantSharedSpinMutex_class)) t) = None"
  shows "rss_count_owner (lock_state (exec ReentrantSharedSpinMutex_class ident evs
        (init_system ReentrantSharedSpinMutex_class)))"
proof -
  let ?sys = "exec ReentrantSharedSpinMutex_class ident evs
    (init_system ReentrantSharedSpinMutex_class)"
  from ReentrantSharedSpinMutex_owner_inv [OF assms(1,2,3)]
  have "(\<exists>t\<in>A. rss_holder (ident t) (threads ?sys t) (rss_core (lock_state ?sys))) \<or>
      core_free (rss_core (lock_state ?sys))"
    unfolding owner_inv_def by auto
  then show ?thesis
  proof
    assume "\<exists>t\<in>A. rss_holder (ident t) (threads ?sys t) (rss_core (lock_state ?sys))"
    then obtain t where tA: "t \<in> A"
      and "rss_holder (ident t) (threads ?sys t) (rss_core (lock_state ?sys))" ..
    with assms(4) have "nested (ident t) (th_excl (threads ?sys t))
        (rss_owner (lock_state ?sys)) (rss_reenCount (lock_state ?sys))"
      by (simp add: rss_holder_def rss_core_def)
    from nested_count [OF this assms(2) [OF tA]] show ?thesis by (simp add: rss_count_owner_def)
  next
    assume "core_free (rss_core (lock_state ?sys))"
    then show ?thesis by (simp add: core_free_def rss_core_def rss_count_owner_def)
  qed
qed

text \<open>Such identities exist for any number of threads below \<open>2^64 - 1\<close>: thread \<open>t\<close> with
  identity \<open>t + 1\<close>.\<close>

lemma successor_identities:
  assumes "N < 2 ^ 64"
  shows "inj_on (\<lambda>t. of_nat (Suc t) :: size_t) {..<N}"
    and "t \<in> {..<N} \<Longrightarrow> (of_nat (Suc t) :: size_t) \<noteq> 0"
proof -
  have take: "\<And>k. k \<le> N \<Longrightarrow> unat (of_nat k :: size_t) = k"
    using assms by (simp add: unat_of_nat)
  show "inj_on (\<lambda>t. of_nat (Suc t) :: size_t) {..<N}"
  proof (rule inj_onI)
    fix a b assume a: "a \<in> {..<N}" and b: "b \<in> {..<N}"
      and eq: "(of_nat (Suc a) :: size_t) = of_nat (Suc b)"
    from a have ua: "unat (of_nat (Suc a) :: size_t) = Suc a" by (intro take) simp
    from b have ub: "unat (of_nat (Suc b) :: size_t) = Suc b" by (intro take) simp
    have "Suc a = unat (of_nat (Suc a) :: size_t)" by (simp only: ua)
    also have "\<dots> = unat (of_nat (Suc b) :: size_t)" by (simp only: eq)
    also have "\<dots> = Suc b" by (rule ub)
    finally show "a = b" by simp
  qed
  show "t \<in> {..<N} \<Longrightarrow> (of_nat (Suc t) :: size_t) \<noteq> 0"
  proof
    assume t: "t \<in> {..<N}" and z: "(of_nat (Suc t) :: size_t) = 0"
    from t have "unat (of_nat (Suc t) :: size_t) = Suc t" by (intro take) simp
    then have "unat (0 :: size_t) = Suc t" by (simp only: z)
    then show False by simp
  qed
qed

lemma reentrant_mutual_exclusion_successor_identities:
  assumes "N < 2 ^ 64" "\<forall>e\<in>set evs. thread_of e < N"
  shows "in_critical (exec ReentrantSpinMutex_class (\<lambda>t. of_nat (Suc t)) evs
           (init_system ReentrantSpinMutex_class)) t \<Longrightarrow>
         in_critical (exec ReentrantSpinMutex_class (\<lambda>t. of_nat (Suc t)) evs
           (init_system ReentrantSpinMutex_class)) u \<Longrightarrow> t = u"
    and "in_critical (exec ReentrantSharedSpinMutex_class (\<lambda>t. of_nat (Suc t)) evs
           (init_system ReentrantSharedSpinMutex_class)) t \<Longrightarrow>
         in_critical (exec ReentrantSharedSpinMutex_class (\<lambda>t. of_nat (Suc t)) evs
           (init_system ReentrantSharedSpinMutex_class)) u \<Longrightarrow> t = u"
proof -
  have ev: "\<forall>e\<in>set evs. thread_of e \<in> {..<N}" using assms(2) by simp
  show "in_critical (exec ReentrantSpinMutex_class (\<lambda>t. of_nat (Suc t)) evs
           (init_system ReentrantSpinMutex_class)) t \<Longrightarrow>
         in_critical (exec ReentrantSpinMutex_class (\<lambda>t. of_nat (Suc t)) evs
           (init_system ReentrantSpinMutex_class)) u \<Longrightarrow> t = u"
    by (rule ReentrantSpinMutex_mutual_exclusion
        [OF successor_identities(1) [OF assms(1)] successor_identities(2) [OF assms(1)] ev])
  show "in_critical (exec ReentrantSharedSpinMutex_class (\<lambda>t. of_nat (Suc t)) evs
           (init_system ReentrantSharedSpinMutex_class)) t \<Longrightarrow>
         in_critical (exec ReentrantSharedSpinMutex_class (\<lambda>t. of_nat (Suc t)) evs
           (init_system ReentrantSharedSpinMutex_class)) u \<Longrightarrow> t = u"
    by (rule ReentrantSharedSpinMutex_mutual_exclusion
        [OF successor_identities(1) [OF assms(1)] successor_identities(2) [OF assms(1)] ev])
qed

lemma reentrant_count_owner_successor_identities:
  assumes "N < 2 ^ 64" "\<forall>e\<in>set evs. thread_of e < N"
  shows "\<forall>t. th_pc (threads (exec ReentrantSpinMutex_class (\<lambda>t. of_nat (Suc t)) evs
           (init_system ReentrantSpinMutex_class)) t) = None \<Longrightarrow>
         rs_count_owner (lock_state (exec ReentrantSpinMutex_class (\<lambda>t. of_nat (Suc t)) evs
           (init_system ReentrantSpinMutex_class)))"
    and "\<forall>t. th_pc (threads (exec ReentrantSharedSpinMutex_class (\<lambda>t. of_nat (Suc t)) evs
           (init_system ReentrantSharedSpinMutex_class)) t) = None \<Longrightarrow>
         rss_count_owner (lock_state (exec ReentrantSharedSpinMutex_class (\<lambda>t. of_nat (Suc t)) evs
           (init_system ReentrantSharedSpinMutex_class)))"
proof -
  have ev: "\<forall>e\<in>set evs. thread_of e \<in> {..<N}" using assms(2) by simp
  show "\<forall>t. th_pc (threads (exec ReentrantSpinMutex_class (\<lambda>t. of_nat (Suc t)) evs
           (init_system ReentrantSpinMutex_class)) t) = None \<Longrightarrow>
         rs_count_owner (lock_state (exec ReentrantSpinMutex_class (\<lambda>t. of_nat (Suc t)) evs
           (init_system ReentrantSpinMutex_class)))"
    by (rule ReentrantSpinMutex_count_owner_between_calls
        [OF successor_identities(1) [OF assms(1)] successor_identities(2) [OF assms(1)] ev])
  show "\<forall>t. th_pc (threads (exec ReentrantSharedSpinMutex_class (\<lambda>t. of_nat (Suc t)) evs
           (init_system ReentrantSharedSpinMutex_class)) t) = None \<Longrightarrow>
         rss_count_owner (lock_state (exec ReentrantSharedSpinMutex_class (\<lambda>t. of_nat (Suc t)) evs
           (init_system ReentrantSharedSpinMutex_class)))"
    by (rule ReentrantSharedSpinMutex_count_owner_between_calls
        [OF successor_identities(1) [OF assms(1)] successor_identities(2) [OF assms(1)] ev])
qed

text \<open>
  Claim C1 does not hold of the code for the reentrant classes.  Two threads whose
  \<^verbatim>\<open>g_threadId\<close> is 0 call \<^verbatim>\<open>lock()\<close> on a fresh \<^verbatim>\<open>ReentrantSpinMutex\<close> one after the other
  and neither calls \<^verbatim>\<open>unlock()\<close>: both calls return, the flag is never taken, and both
  threads are inside the critical section.  Two threads with the same nonzero identity do
  the same on a \<^verbatim>\<open>ReentrantSharedSpinMutex\<close>.  With identities 0 and 5 the second thread wins
  the exchange while the first is inside, and fails \<^verbatim>\<open>assert(_reenCount == 0 && _owner == 0)\<close>.
\<close>

theorem reentrant_lock_identity_collision:
  "(let sys = exec ReentrantSpinMutex_class (\<lambda>t. 0)
       [Call 0 Lock, Step 0, Step 0, Call 1 Lock, Step 1, Step 1]
       (init_system ReentrantSpinMutex_class)
    in in_critical sys 0 \<and> in_critical sys 1 \<and> \<not> aborted sys \<and> \<not> rs_flag (lock_state sys)) \<and>
   (let sys = exec ReentrantSharedSpinMutex_class (\<lambda>t. 7)
       [Call 0 Lock, Step 0, Step 0, Step 0, Step 0, Step 0, Step 0,
        Call 1 Lock, Step 1, Step 1, Step 1]
       (init_system ReentrantSharedSpinMutex_class)
    in in_critical sys 0 \<and> in_critical sys 1 \<and> \<not> aborted sys) \<and>
   (let sys = exec ReentrantSpinMutex_class (\<lambda>t. if t = 0 then 0 else 5)
       [Call 0 Lock, Step 0, Step 0, Call 1 Lock, Step 1, Step 1, Step 1]
       (init_system ReentrantSpinMutex_class)
    in in_critical sys 0 \<and> aborted sys \<and> th_pc (threads sys 1) = None \<and>
       rs_flag (lock_state sys))"
  by (simp add: ReentrantSpinMutex_class_def ReentrantSharedSpinMutex_class_def init_system_def
      idle_thread_def ReentrantSpinMutex_init_def ReentrantSharedSpinMutex_init_def
      in_critical_def Let_def advance_def)

end
